theory Spec2Isabelle
  imports Complex_Main "HOL-Library.Multiset"
begin

section \<open>Shared foundation: characters, alphabet, errors\<close>

text \<open>
  The two cracking tools, \<^verbatim>\<open>tool_affinecipher/src/main.cpp\<close> and
  \<^verbatim>\<open>tool_vigenerecipher/src/main_vigenere.cpp\<close>, are embedded here. A C++
  \<^verbatim>\<open>std::string\<close> is a \<open>string\<close> (a list of 8-bit \<open>char\<close>s); a C++ \<^verbatim>\<open>int\<close> is
  an \<open>int\<close> or a \<open>nat\<close> (every counter of the modelled loops is bounded by the text
  length or by 26, so no 32-bit operation wraps; the one counter bounded by user input,
  the Vigenere key length, is guarded explicitly). Undefined behaviour and exceptions
  are values of \<open>error\<close>.
\<close>

datatype error =
    InvalidKey
  | DivByZero
  | IndexOutOfRange int
  | Uninitialised
  | CounterOverflow

definition ALPHABET :: string where
  "ALPHABET = ''abcdefghijklmnopqrstuvwxyz''"

text \<open>\<^verbatim>\<open>std::string::find(char)\<close>: the index of the first occurrence, \<open>None\<close> for
  \<^verbatim>\<open>npos\<close>.\<close>

fun str_find :: "string \<Rightarrow> char \<Rightarrow> nat option" where
  "str_find [] c = None"
| "str_find (x # xs) c = (if x = c then Some 0 else map_option Suc (str_find xs c))"

text \<open>The value of a \<^verbatim>\<open>char\<close> read as an \<^verbatim>\<open>int\<close> (\<^verbatim>\<open>char\<close> is signed on the
  platforms the tools are built for).\<close>

definition schar :: "char \<Rightarrow> int" where
  "schar c = (let n = of_char c :: int in if n < 128 then n else n - 256)"

text \<open>\<^verbatim>\<open>ALPHABET.find(c)\<close> stored into the \<^verbatim>\<open>char\<close> of a \<^verbatim>\<open>pair<char, char>\<close> and read
  back as an \<^verbatim>\<open>int\<close>: the index of the letter, and \<open>-1\<close> (the low byte of
  \<^verbatim>\<open>npos\<close>) for a symbol outside the alphabet.\<close>

definition residue :: "char \<Rightarrow> int" where
  "residue c = (case str_find ALPHABET c of None \<Rightarrow> - 1 | Some i \<Rightarrow> int i)"

text \<open>\<^verbatim>\<open>tolower((unsigned char)c)\<close> in the C locale.\<close>

definition to_lower :: "char \<Rightarrow> char" where
  "to_lower c = (let n = of_char c :: nat in if 65 \<le> n \<and> n \<le> 90 then char_of (n + 32) else c)"

section \<open>The external arithmetic and cipher primitives\<close>

text \<open>Modelled from the spec: \<^verbatim>\<open>cryptomath::mod\<close>, \<^verbatim>\<open>cryptomath::gcd\<close> and
  \<^verbatim>\<open>cryptomath::inverseMod\<close> (header \<^verbatim>\<open>cryptomath.h\<close> is not among the sources).
  \<open>mod\<close> is the non-negative residue, \<open>gcd\<close> the greatest common divisor, and
  \<open>inverseMod a n\<close> the inverse of \<open>a\<close> modulo \<open>n\<close> in \<open>[0, n)\<close>, or \<open>0\<close> when there is
  none (\<^verbatim>\<open>linsolve\<close> tests \<^verbatim>\<open>inv == 0\<close> for exactly that).\<close>

definition cm_mod :: "int \<Rightarrow> int \<Rightarrow> int" where
  "cm_mod a n = a mod n"

definition cm_gcd :: "int \<Rightarrow> int \<Rightarrow> int" where
  "cm_gcd a n = gcd a n"

definition inverseMod :: "int \<Rightarrow> int \<Rightarrow> int" where
  "inverseMod a n =
     (case find (\<lambda>x. (a * x) mod n = 1) (map int [0..<nat n]) of
        None \<Rightarrow> 0 | Some x \<Rightarrow> x)"

text \<open>Modelled from the spec: \<^verbatim>\<open>affine::transformer\<close> (header \<^verbatim>\<open>affinecipher.h\<close> is
  not among the sources). The tool's documentation gives the transform
  \<open>m = (c - \<beta>) \<alpha>\<^sup>-\<^sup>1 (mod n)\<close> on alphabet indices, says that \<open>\<alpha>\<close> must be coprime with
  \<open>n\<close> (the constructor throws otherwise: \<^verbatim>\<open>main\<close> catches it and returns 3), that
  text outside a-z and A-Z is copied as it is and that A-Z is made lower-case first.\<close>

definition decrypt_char :: "int \<Rightarrow> int \<Rightarrow> char \<Rightarrow> char" where
  "decrypt_char a b c =
     (case str_find ALPHABET (to_lower c) of
        None \<Rightarrow> c
      | Some i \<Rightarrow> ALPHABET ! nat (cm_mod ((int i - b) * inverseMod (cm_mod a 26) 26) 26))"

definition decrypt :: "int \<Rightarrow> int \<Rightarrow> string \<Rightarrow> error + string" where
  "decrypt a b ciph =
     (if cm_gcd a 26 = 1 then Inr (map (decrypt_char a b) ciph) else Inl InvalidKey)"

section \<open>The affine tool: \<^verbatim>\<open>linsolve\<close> and \<^verbatim>\<open>checkSoln\<close>\<close>

text \<open>\<^verbatim>\<open>linsolve\<close> receives two \<^verbatim>\<open>pair<char, char>\<close> and widens the four fields to
  \<^verbatim>\<open>int\<close>; the model takes the widened values. They lie in \<open>[-128, 127]\<close>, so none of
  the products below leaves the range of a 32-bit \<^verbatim>\<open>int\<close>.\<close>

definition linsolve :: "int \<times> int \<Rightarrow> int \<times> int \<Rightarrow> int \<times> int" where
  "linsolve p1 p2 =
     (let x1 = fst p1; y1 = snd p1;
          x2 = fst p2; y2 = snd p2;
          inv = inverseMod (cm_mod (x2 - x1) 26) 26
      in if inv = 0 then (0, 0)
         else let alpha = cm_mod ((y2 - y1) * inv) 26;
                  beta = cm_mod (y1 - x1 * alpha) 26
              in if cm_gcd alpha 26 = 1 then (alpha, beta) else (0, 0))"

text \<open>The loop of \<^verbatim>\<open>checkSoln\<close> over the known pairs, with the running \<^verbatim>\<open>matches\<close>.
  The two \<^verbatim>\<open>break\<close>s return at once. \<^verbatim>\<open>ciph[index]\<close> is in range because the
  decrypted message has the length of the ciphertext.\<close>

fun check_loop :: "string \<Rightarrow> string \<Rightarrow> (char \<times> char) list \<Rightarrow> int \<Rightarrow> int" where
  "check_loop msg ciph [] matches = matches"
| "check_loop msg ciph (p # ps) matches =
     (case str_find msg (fst p) of
        None \<Rightarrow> check_loop msg ciph ps matches
      | Some index \<Rightarrow>
          if ciph ! index = snd p
          then (if matches + 1 = 2 then matches + 1 else check_loop msg ciph ps (matches + 1))
          else - 1)"

definition checkSoln :: "int \<Rightarrow> int \<Rightarrow> string \<Rightarrow> (char \<times> char) list \<Rightarrow> error + (int \<times> string)" where
  "checkSoln a b ciph known =
     (case decrypt a b ciph of
        Inl e \<Rightarrow> Inl e
      | Inr msg \<Rightarrow> Inr (check_loop msg ciph known 0, msg))"


section \<open>The affine tool: the two cracking modes of \<^verbatim>\<open>main\<close>\<close>

text \<open>Order of the letters of English by frequency (\<^verbatim>\<open>constants_affine::FREQUENCIES\<close>).\<close>

definition FREQUENCIES_affine :: string where
  "FREQUENCIES_affine = ''etaoinsrhdlucmfywgpbvkxqjz''"

text \<open>A loop \<^verbatim>\<open>for(...; i < n && !done; i++)\<close> over the values \<open>xs\<close> of its counter: the
  body runs while the state is not done; an exception leaves the loop.\<close>

fun for_loop :: "('s \<Rightarrow> bool) \<Rightarrow> 'i list \<Rightarrow> ('i \<Rightarrow> 's \<Rightarrow> error + 's) \<Rightarrow> 's \<Rightarrow> error + 's" where
  "for_loop dn [] body st = Inr st"
| "for_loop dn (i # rest) body st =
     (if dn st then Inr st
      else case body i st of Inl e \<Rightarrow> Inl e | Inr st' \<Rightarrow> for_loop dn rest body st')"

type_synonym row = "int \<times> int \<times> string"

text \<open>Mode \<^verbatim>\<open>Crack_All\<close> (\<^verbatim>\<open>-ca\<close>). The state is the flag \<^verbatim>\<open>done\<close> and the rows written
  to \<^verbatim>\<open>cout\<close> so far.\<close>

definition all_body :: "string \<Rightarrow> (char \<times> char) list \<Rightarrow> int \<Rightarrow> int \<Rightarrow> bool \<times> row list \<Rightarrow> error + (bool \<times> row list)" where
  "all_body ciph known i j st =
     (case checkSoln i j ciph known of
        Inl e \<Rightarrow> Inl e
      | Inr check \<Rightarrow>
          Inr (if fst check = 2 then True else fst st,
               if fst check \<noteq> - 1 then snd st @ [(i, j, snd check)] else snd st))"

definition crack_all :: "string \<Rightarrow> (char \<times> char) list \<Rightarrow> error + row list" where
  "crack_all ciph known =
     (case for_loop fst (map int [0..<26])
             (\<lambda>i st. if cm_gcd i 26 = 1
                      then for_loop fst (map int [0..<26]) (all_body ciph known i) st
                      else Inr st)
             (False, []) of
        Inl e \<Rightarrow> Inl e
      | Inr st \<Rightarrow> Inr (snd st))"

text \<open>Mode \<^verbatim>\<open>Crack_Best\<close> (\<^verbatim>\<open>-cb\<close>). The state is the flag \<^verbatim>\<open>done\<close>, the set
  \<^verbatim>\<open>tested\<close> and the rows written to \<^verbatim>\<open>cout\<close> so far.\<close>

record search =
  is_done :: bool
  tested :: "(int \<times> int) set"
  printed :: "row list"

definition init_search :: search where
  "init_search = \<lparr>is_done = False, tested = {}, printed = []\<rparr>"

text \<open>First tier: two known pairs. In \<^verbatim>\<open>soln.first && tested.insert(soln).second\<close> the
  insertion happens only for a non-zero \<open>\<alpha>\<close>, and inserting a pair already there changes
  nothing. The row is written without a call of \<^verbatim>\<open>checkSoln\<close>.\<close>

definition tier1_soln :: "(char \<times> char) list \<Rightarrow> nat \<Rightarrow> nat \<Rightarrow> int \<times> int" where
  "tier1_soln known i j =
     (let knowni = (residue (fst (known ! i)), residue (snd (known ! i)));
          knownj = (residue (fst (known ! j)), residue (snd (known ! j)))
      in linsolve knowni knownj)"

definition tier1_body :: "string \<Rightarrow> (char \<times> char) list \<Rightarrow> nat \<Rightarrow> nat \<Rightarrow> search \<Rightarrow> error + search" where
  "tier1_body ciph known i j st =
     (let soln = tier1_soln known i j
      in if fst soln \<noteq> 0 \<and> soln \<notin> tested st
         then (case decrypt (fst soln) (snd soln) ciph of
                 Inl e \<Rightarrow> Inl e
               | Inr msg \<Rightarrow>
                   Inr (st\<lparr>tested := insert soln (tested st),
                           printed := printed st @ [(fst soln, snd soln, msg)],
                           is_done := True\<rparr>))
         else Inr st)"


text \<open>The block shared by the second and third tier: a solution with non-zero \<open>\<alpha>\<close> that
  is new to \<^verbatim>\<open>tested\<close> is scored by \<^verbatim>\<open>checkSoln\<close>, written unless the score is
  \<open>-1\<close>, and ends the search when the score is \<open>2\<close>.\<close>

definition verify_soln :: "string \<Rightarrow> (char \<times> char) list \<Rightarrow> int \<times> int \<Rightarrow> search \<Rightarrow> error + search" where
  "verify_soln ciph known soln st =
     (if fst soln \<noteq> 0 \<and> soln \<notin> tested st
      then (case checkSoln (fst soln) (snd soln) ciph known of
              Inl e \<Rightarrow> Inl e
            | Inr check \<Rightarrow>
                Inr (st\<lparr>tested := insert soln (tested st),
                        printed := (if fst check \<noteq> - 1
                                    then printed st @ [(fst soln, snd soln, snd check)]
                                    else printed st),
                        is_done := (if fst check = 2 then True else is_done st)\<rparr>))
      else Inr st)"

text \<open>Second tier: one known pair and one frequency hypothesis. \<open>freqs\<close> is the table of
  255 \<^verbatim>\<open>pair<char, int>\<close> after \<^verbatim>\<open>countFrequencies\<close> and \<^verbatim>\<open>std::sort\<close> (both outside
  the sources), most frequent symbol first. The guard is the source's: it compares the
  ranked symbol with the known plain symbol, and the \<^emph>\<open>count\<close> of the ranked symbol with
  the (widened) known cipher symbol.\<close>

definition tier2_guard :: "(char \<times> int) list \<Rightarrow> (char \<times> char) list \<Rightarrow> nat \<Rightarrow> nat \<Rightarrow> bool" where
  "tier2_guard freqs known i j =
     (fst (freqs ! i) \<noteq> fst (known ! j) \<and> snd (freqs ! i) \<noteq> schar (snd (known ! j)))"

definition tier2_soln :: "(char \<times> int) list \<Rightarrow> (char \<times> char) list \<Rightarrow> nat \<Rightarrow> nat \<Rightarrow> int \<times> int" where
  "tier2_soln freqs known i j =
     (let possible = (residue (FREQUENCIES_affine ! i), residue (fst (freqs ! i)));
          knownj = (residue (fst (known ! j)), residue (snd (known ! j)))
      in linsolve knownj possible)"

definition tier2_body :: "string \<Rightarrow> (char \<times> char) list \<Rightarrow> (char \<times> int) list \<Rightarrow> nat \<Rightarrow> nat \<Rightarrow> search \<Rightarrow> error + search" where
  "tier2_body ciph known freqs i j st =
     (if tier2_guard freqs known i j
      then verify_soln ciph known (tier2_soln freqs known i j) st
      else Inr st)"


text \<open>Third tier: two frequency hypotheses.\<close>

definition tier3_soln :: "(char \<times> int) list \<Rightarrow> nat \<Rightarrow> nat \<Rightarrow> int \<times> int" where
  "tier3_soln freqs i j =
     (let possible1 = (residue (FREQUENCIES_affine ! i), residue (fst (freqs ! i)));
          possible2 = (residue (FREQUENCIES_affine ! j), residue (fst (freqs ! j)))
      in linsolve possible1 possible2)"

definition tier3_body :: "string \<Rightarrow> (char \<times> char) list \<Rightarrow> (char \<times> int) list \<Rightarrow> nat \<Rightarrow> nat \<Rightarrow> search \<Rightarrow> error + search" where
  "tier3_body ciph known freqs i j st =
     verify_soln ciph known (tier3_soln freqs i j) st"



text \<open>The table as \<^verbatim>\<open>main\<close> initialises it: entry \<open>i\<close> is the symbol with code \<open>i\<close> and
  the count 0.\<close>

definition init_table :: "(char \<times> int) list" where
  "init_table = map (\<lambda>i. (char_of i, 0)) [0..<255]"


section \<open>The Vigenere tool: mode \<^verbatim>\<open>Crack\<close> of \<^verbatim>\<open>main\<close>\<close>

text \<open>Known frequencies of the letters of English (\<^verbatim>\<open>constants_vigenere::FREQUENCIES\<close>).
  The source computes with \<^verbatim>\<open>double\<close>; the model computes with exact rationals, so it
  shows the index arithmetic and the comparisons of the source but not its rounding.\<close>

definition FREQUENCIES :: "rat list" where
  "FREQUENCIES =
     [82 / 1000, 15 / 1000, 28 / 1000, 43 / 1000, 127 / 1000, 22 / 1000, 20 / 1000,
      61 / 1000, 70 / 1000, 2 / 1000, 8 / 1000, 40 / 1000, 24 / 1000, 67 / 1000,
      75 / 1000, 19 / 1000, 1 / 1000, 60 / 1000, 63 / 1000, 91 / 1000, 28 / 1000,
      10 / 1000, 23 / 1000, 1 / 1000, 20 / 1000, 1 / 1000]"

text \<open>The body of the reading loop for one line: each symbol is lower-cased and kept if
  it is in the alphabet.\<close>

definition filter_line :: "string \<Rightarrow> string" where
  "filter_line line = filter (\<lambda>c. str_find ALPHABET c \<noteq> None) (map to_lower line)"

text \<open>\<^verbatim>\<open>while(*inStream && ciph.size() < 2000)\<close>: the stream is the list of the lines
  that \<^verbatim>\<open>getline\<close> still delivers. The size is tested before a line is read, and the
  whole line is appended.\<close>

fun read_sample :: "string list \<Rightarrow> string \<Rightarrow> string" where
  "read_sample [] ciph = ciph"
| "read_sample (line # rest) ciph =
     (if length ciph < 2000 then read_sample rest (ciph @ filter_line line) else ciph)"

text \<open>\<^verbatim>\<open>for(int j=0, k=i; k < ciph.size(); j++, k++) if(ciph[j] == ciph[k]) matches++;\<close>\<close>

function count_matches :: "string \<Rightarrow> nat \<Rightarrow> nat \<Rightarrow> int \<Rightarrow> int" where
  "count_matches ciph j k matches =
     (if k < length ciph
      then count_matches ciph (j + 1) (k + 1) (if ciph ! j = ciph ! k then matches + 1 else matches)
      else matches)"
  by pat_completeness auto
termination
  by (relation "measure (\<lambda>(ciph, j, k, matches). length ciph - k)") auto

declare count_matches.simps [simp del]

text \<open>One round of the loop over the key lengths; the state is \<^verbatim>\<open>guessLengths\<close> and
  \<^verbatim>\<open>guessMatches\<close>.\<close>

definition guess_step :: "string \<Rightarrow> nat list \<times> int \<Rightarrow> nat \<Rightarrow> nat list \<times> int" where
  "guess_step ciph st i =
     (let matches = count_matches ciph 0 i 0
      in if matches > snd st then ([i], matches)
         else if matches = snd st then (fst st @ [i], snd st)
         else st)"

definition guess_lengths :: "string \<Rightarrow> nat \<Rightarrow> nat list" where
  "guess_lengths ciph key_max = fst (foldl (guess_step ciph) ([], 0) [1..<key_max + 1])"

text \<open>\<^verbatim>\<open>for(int i = start; i < ciph.size(); i+=len) ciph_.push_back(ciph[i]);\<close> The
  counter is a 32-bit \<^verbatim>\<open>int\<close>: adding \<open>len\<close> beyond \<open>2\<^sup>3\<^sup>1 - 1\<close> is undefined. \<open>len\<close> is
  an entry of \<^verbatim>\<open>guessLengths\<close> and so at least 1; the test \<open>0 < len\<close> is only there for
  the termination of the model.\<close>

function column_loop :: "string \<Rightarrow> nat \<Rightarrow> nat \<Rightarrow> string \<Rightarrow> error + string" where
  "column_loop ciph len i col =
     (if i < length ciph \<and> 0 < len
      then (if 2147483647 < i + len then Inl CounterOverflow
            else column_loop ciph len (i + len) (col @ [ciph ! i]))
      else Inr col)"
  by pat_completeness auto
termination
  by (relation "measure (\<lambda>(ciph, len, i, col). length ciph - i)") auto

declare column_loop.simps [simp del]

text \<open>Modelled from the spec: \<^verbatim>\<open>frequency::countFrequencies\<close> (header \<^verbatim>\<open>freq_count.h\<close>
  is not among the sources) scans the symbols of a text and applies the caller's
  increment to the entry of the caller's table that belongs to the symbol, which is the
  entry at the symbol's code.\<close>

definition countFrequencies :: "string \<Rightarrow> (char \<times> int) list \<Rightarrow> (char \<times> int \<Rightarrow> char \<times> int) \<Rightarrow> (char \<times> int) list" where
  "countFrequencies text table inc =
     foldl (\<lambda>t c. let i = of_char c in if i < length t then t[i := inc (t ! i)] else t) table text"

text \<open>The increment of the Vigenere tool: \<^verbatim>\<open>p.second++\<close>.\<close>

definition inc_count :: "char \<times> int \<Rightarrow> char \<times> int" where
  "inc_count p = (fst p, snd p + 1)"

text \<open>\<^verbatim>\<open>std::sort\<close> with the comparison \<^verbatim>\<open>l.second > r.second\<close> is outside the sources
  and not stable: it returns some rearrangement of the table in which no entry has a
  smaller count than a later one. The functions below take the sorting function \<open>srt\<close>
  as a parameter; \<open>sort_spec\<close> is what the C++ standard promises of it.\<close>

definition sort_result :: "(char \<times> int) list \<Rightarrow> (char \<times> int) list \<Rightarrow> bool" where
  "sort_result t ys = (mset ys = mset t \<and> sorted_wrt (\<lambda>l r. snd r \<le> snd l) ys)"

definition sort_spec :: "((char \<times> int) list \<Rightarrow> (char \<times> int) list) \<Rightarrow> bool" where
  "sort_spec srt = (\<forall>t. sort_result t (srt t))"

text \<open>One sorting function that meets \<open>sort_spec\<close>: the stable insertion sort, which keeps
  entries of equal count in table order.\<close>

definition stable_sort :: "(char \<times> int) list \<Rightarrow> (char \<times> int) list" where
  "stable_sort t = sort_key (\<lambda>p. - snd p) t"

text \<open>\<^verbatim>\<open>for(int i=0; i<26; i++) W[freqs[i].first-'a'] = freqs[i].second/(double)ciph_.size();\<close>
  \<open>n\<close> is \<^verbatim>\<open>ciph_.size()\<close>. The quotient is computed before the store: a zero divisor
  is reported first, then an index outside \<^verbatim>\<open>W\<close>.\<close>

fun fill_W :: "(char \<times> int) list \<Rightarrow> nat \<Rightarrow> nat list \<Rightarrow> rat list \<Rightarrow> error + rat list" where
  "fill_W freqs n [] W = Inr W"
| "fill_W freqs n (i # rest) W =
     (let idx = schar (fst (freqs ! i)) - schar (CHR ''a'')
      in if n = 0 then Inl DivByZero
         else if idx < 0 \<or> int (length W) \<le> idx then Inl (IndexOutOfRange idx)
         else fill_W freqs n rest (W[nat idx := of_int (snd (freqs ! i)) / of_nat n]))"

text \<open>The inner loop of the shift search: \<^verbatim>\<open>dot += FREQUENCIES[freq]*W[j]\<close> with
  \<^verbatim>\<open>freq\<close> starting at \<^verbatim>\<open>(26 - i) % 26\<close> and stepping by \<^verbatim>\<open>(freq+1) % 26\<close>.\<close>

definition dot_step :: "rat list \<Rightarrow> rat \<times> nat \<Rightarrow> nat \<Rightarrow> rat \<times> nat" where
  "dot_step W st j = (fst st + FREQUENCIES ! snd st * W ! j, (snd st + 1) mod 26)"

definition shift_dot :: "rat list \<Rightarrow> nat \<Rightarrow> rat" where
  "shift_dot W i = fst (foldl (dot_step W) (0, (26 - i) mod 26) [0..<26])"

text \<open>The outer loop: the state is \<^verbatim>\<open>maxDot\<close> and \<^verbatim>\<open>maxShift\<close>; \<^verbatim>\<open>maxShift\<close> is declared
  without a value, which is \<open>None\<close>.\<close>

definition shift_step :: "rat list \<Rightarrow> rat \<times> nat option \<Rightarrow> nat \<Rightarrow> rat \<times> nat option" where
  "shift_step W st i =
     (let dot = shift_dot W i in if dot > fst st then (dot, Some i) else st)"

definition best_shift :: "rat list \<Rightarrow> nat option" where
  "best_shift W = snd (foldl (shift_step W) (0, None) [0..<26])"

text \<open>One symbol of the key: the body of the loop over \<^verbatim>\<open>start\<close>.\<close>

definition key_char :: "((char \<times> int) list \<Rightarrow> (char \<times> int) list) \<Rightarrow> string \<Rightarrow> nat \<Rightarrow> nat \<Rightarrow> error + char" where
  "key_char srt ciph len start =
     (case column_loop ciph len start [] of
        Inl e \<Rightarrow> Inl e
      | Inr col \<Rightarrow>
          let freqs = srt (countFrequencies col init_table inc_count)
          in case fill_W freqs (length col) [0..<26] (replicate 26 0) of
               Inl e \<Rightarrow> Inl e
             | Inr W \<Rightarrow>
                 (case best_shift W of
                    None \<Rightarrow> Inl Uninitialised
                  | Some maxShift \<Rightarrow> Inr (ALPHABET ! maxShift)))"

fun key_loop :: "((char \<times> int) list \<Rightarrow> (char \<times> int) list) \<Rightarrow> string \<Rightarrow> nat \<Rightarrow> nat list \<Rightarrow> string \<Rightarrow> error + string" where
  "key_loop srt ciph len [] key = Inr key"
| "key_loop srt ciph len (start # rest) key =
     (case key_char srt ciph len start of
        Inl e \<Rightarrow> Inl e
      | Inr c \<Rightarrow> key_loop srt ciph len rest (key @ [c]))"

fun keys_loop :: "((char \<times> int) list \<Rightarrow> (char \<times> int) list) \<Rightarrow> string \<Rightarrow> nat list \<Rightarrow> string list \<Rightarrow> error + string list" where
  "keys_loop srt ciph [] out = Inr out"
| "keys_loop srt ciph (len # rest) out =
     (case key_loop srt ciph len [0..<len] [] of
        Inl e \<Rightarrow> Inl e
      | Inr key \<Rightarrow> keys_loop srt ciph rest (out @ [key]))"

text \<open>The whole mode: the keys written to \<^verbatim>\<open>cout\<close>, in order. The counter of the loop
  over the key lengths is a 32-bit \<^verbatim>\<open>int\<close> compared with the 64-bit \<^verbatim>\<open>key_max\<close>: from
  \<open>key_max = 2\<^sup>3\<^sup>1 - 1\<close> on its increment is undefined.\<close>

definition vigenere_crack :: "((char \<times> int) list \<Rightarrow> (char \<times> int) list) \<Rightarrow> string list \<Rightarrow> nat \<Rightarrow> error + string list" where
  "vigenere_crack srt lines key_max =
     (if 2147483647 \<le> key_max then Inl CounterOverflow
      else let ciph = read_sample lines []
           in keys_loop srt ciph (guess_lengths ciph key_max) [])"





text \<open>The same for the text \<^verbatim>\<open>bbb\<close>.\<close>

definition ranked_bbb :: "(char \<times> int) list" where
  "ranked_bbb =
     [(CHR ''b'', 3), (CHR 0x00, 0), (CHR 0x01, 0), (CHR 0x02, 0), (CHR 0x03, 0),
      (CHR 0x04, 0), (CHR 0x05, 0), (CHR 0x06, 0), (CHR 0x07, 0), (CHR 0x08, 0),
      (CHR 0x09, 0), (CHR 0x0A, 0), (CHR 0x0B, 0), (CHR 0x0C, 0), (CHR 0x0D, 0),
      (CHR 0x0E, 0), (CHR 0x0F, 0), (CHR 0x10, 0), (CHR 0x11, 0), (CHR 0x12, 0),
      (CHR 0x13, 0), (CHR 0x14, 0), (CHR 0x15, 0), (CHR 0x16, 0), (CHR 0x17, 0),
      (CHR 0x18, 0)]"

section \<open>The notions of the specification\<close>

text \<open>These definitions follow the words of the specification; the theorems below
  compare them with the functions above, which follow the source.\<close>

text \<open>What the source's test says about one known pair and a decrypted message: the plain
  symbol is absent from the message, or the ciphertext at its first occurrence is the
  known cipher symbol (matched), or it is another symbol (contradicted).\<close>

datatype pair_status = Absent | Matched | Contradicted

definition pair_status :: "string \<Rightarrow> string \<Rightarrow> char \<times> char \<Rightarrow> pair_status" where
  "pair_status msg ciph p =
     (case str_find msg (fst p) of
        None \<Rightarrow> Absent
      | Some index \<Rightarrow> if ciph ! index = snd p then Matched else Contradicted)"

text \<open>The MatchScore and the decrypted text of a candidate \<open>(\<alpha>, \<beta>)\<close>.\<close>

definition MatchScore :: "string \<Rightarrow> (char \<times> char) list \<Rightarrow> int \<times> int \<Rightarrow> int option" where
  "MatchScore ciph known k =
     (case checkSoln (fst k) (snd k) ciph known of Inl e \<Rightarrow> None | Inr check \<Rightarrow> Some (fst check))"

definition plain_of :: "string \<Rightarrow> int \<times> int \<Rightarrow> string" where
  "plain_of ciph k = map (decrypt_char (fst k) (snd k)) ciph"

text \<open>The candidates of the brute-force search in the order of the specification:
  \<open>\<alpha>\<close> ascending in \<open>[1, 26)\<close> with \<open>gcd(\<alpha>, 26) = 1\<close>, and for each \<open>\<alpha>\<close> the \<open>\<beta>\<close> ascending
  in \<open>[0, 26)\<close>.\<close>

definition spec_candidates :: "(int \<times> int) list" where
  "spec_candidates =
     concat (map (\<lambda>a. map (\<lambda>b. (a, b)) (map int [0..<26]))
                 (filter (\<lambda>a. gcd a 26 = 1) (map int [1..<26])))"

text \<open>The elements of a list up to and including the first one with property \<open>P\<close>.\<close>

fun take_until :: "('a \<Rightarrow> bool) \<Rightarrow> 'a list \<Rightarrow> 'a list" where
  "take_until P [] = []"
| "take_until P (x # xs) = (if P x then [x] else x # take_until P xs)"

text \<open>The collision test of the specification for the second tier: the hypothesised plain
  symbol is the known plain symbol, or the hypothesised cipher symbol is the known cipher
  symbol.\<close>

definition spec_collides :: "(char \<times> int) list \<Rightarrow> (char \<times> char) list \<Rightarrow> nat \<Rightarrow> nat \<Rightarrow> bool" where
  "spec_collides freqs known i j =
     (FREQUENCIES_affine ! i = fst (known ! j) \<or> fst (freqs ! i) = snd (known ! j))"

text \<open>The number of positions \<open>i\<close> with \<open>ciph[i] = ciph[i + L]\<close>.\<close>

definition coincidences :: "string \<Rightarrow> nat \<Rightarrow> nat" where
  "coincidences ciph L = length (filter (\<lambda>i. ciph ! i = ciph ! (i + L)) [0..<length ciph - L])"



text \<open>The state of the loop over the key lengths after the lengths \<open>xs\<close>: the lengths
  kept are those of \<open>xs\<close> whose number of coincidences is the running maximum.\<close>

definition guess_inv :: "string \<Rightarrow> nat list \<Rightarrow> nat list \<times> int \<Rightarrow> bool" where
  "guess_inv ciph xs st =
     (fst st = filter (\<lambda>L. int (coincidences ciph L) = snd st) xs
      \<and> (\<forall>L\<in>set xs. int (coincidences ciph L) \<le> snd st)
      \<and> (snd st = 0 \<or> (\<exists>L\<in>set xs. int (coincidences ciph L) = snd st)))"

text \<open>An entry of the count table whose symbol is a letter: the index
  \<^verbatim>\<open>freqs[i].first - 'a'\<close> lies in \<open>[0, 26)\<close>.\<close>

definition letter_entry :: "char \<times> int \<Rightarrow> bool" where
  "letter_entry p = (0 \<le> schar (fst p) - schar (CHR ''a'') \<and> schar (fst p) - schar (CHR ''a'') < 26)"




section \<open>Facts about the primitives\<close>

lemma str_find_None: "str_find s c = None \<longleftrightarrow> c \<notin> set s"
  by (induction s) auto

lemma str_find_Some:
  "str_find s c = Some i \<Longrightarrow> i < length s \<and> s ! i = c \<and> (\<forall>j<i. s ! j \<noteq> c)"
proof (induction s arbitrary: i)
  case Nil
  then show ?case by simp
next
  case (Cons x xs)
  show ?case
  proof (cases "x = c")
    case True
    with Cons.prems show ?thesis by simp
  next
    case False
    with Cons.prems obtain k where k: "str_find xs c = Some k" "i = Suc k"
      by auto
    from Cons.IH [OF k(1)] False k(2) show ?thesis
      by (auto simp: nth_Cons split: nat.splits)
  qed
qed

lemma length_plain_of: "length (plain_of ciph k) = length ciph"
  by (simp add: plain_of_def)

lemma decrypt_valid: "cm_gcd a 26 = 1 \<Longrightarrow> decrypt a b ciph = Inr (plain_of ciph (a, b))"
  by (simp add: decrypt_def plain_of_def)

lemma decrypt_invalid: "cm_gcd a 26 \<noteq> 1 \<Longrightarrow> decrypt a b ciph = Inl InvalidKey"
  by (simp add: decrypt_def)

lemma checkSoln_valid:
  "cm_gcd a 26 = 1 \<Longrightarrow>
   checkSoln a b ciph known = Inr (check_loop (plain_of ciph (a, b)) ciph known 0, plain_of ciph (a, b))"
  by (simp add: checkSoln_def decrypt_valid)

lemma inv_table:
  "\<forall>a\<in>set (map int [0..<26]).
     (inverseMod a 26 = 0) = (gcd a 26 \<noteq> 1) \<and> (gcd a 26 = 1 \<longrightarrow> (a * inverseMod a 26) mod 26 = 1)"
  by code_simp

lemma inverseMod_26:
  assumes "0 \<le> a" "a < 26"
  shows "(inverseMod a 26 = 0) = (gcd a 26 \<noteq> 1)"
    and "gcd a 26 = 1 \<Longrightarrow> (a * inverseMod a 26) mod 26 = 1"
proof -
  have "a \<in> int ` {0..<26}"
    using assms by (intro image_eqI [of _ _ "nat a"]) auto
  then have "a \<in> set (map int [0..<26])" by simp
  then have
    "(inverseMod a 26 = 0) = (gcd a 26 \<noteq> 1) \<and> (gcd a 26 = 1 \<longrightarrow> (a * inverseMod a 26) mod 26 = 1)"
    by (rule bspec [OF inv_table])
  then show "(inverseMod a 26 = 0) = (gcd a 26 \<noteq> 1)"
    and "gcd a 26 = 1 \<Longrightarrow> (a * inverseMod a 26) mod 26 = 1"
    by simp_all
qed

lemma gcd_mod_26: "gcd (x mod 26) (26::int) = gcd x 26"
  by (metis gcd.commute gcd_red_int)

lemma inverse_exists_iff: "(\<exists>z. (x * z) mod 26 = (1::int)) \<longleftrightarrow> gcd x 26 = 1"
proof
  assume "\<exists>z. (x * z) mod 26 = 1"
  then obtain z where z: "(x * z) mod 26 = 1" ..
  have "gcd x 26 dvd x * z" by simp
  moreover have "gcd x 26 dvd 26" by simp
  ultimately have "gcd x 26 dvd (x * z) mod 26" by (rule dvd_mod)
  with z have "gcd x 26 dvd 1" by simp
  then show "gcd x 26 = 1" by simp
next
  assume g: "gcd x 26 = 1"
  then have "gcd (x mod 26) 26 = 1" by (simp add: gcd_mod_26)
  then have "((x mod 26) * inverseMod (x mod 26) 26) mod 26 = 1"
    by (intro inverseMod_26) simp_all
  then have "(x * inverseMod (x mod 26) 26) mod 26 = 1"
    by (simp add: mod_mult_left_eq)
  then show "\<exists>z. (x * z) mod 26 = 1" ..
qed

lemma inverseMod_zero_iff: "inverseMod (x mod 26) 26 = 0 \<longleftrightarrow> gcd x 26 \<noteq> 1"
  using inverseMod_26(1) [of "x mod 26"] by (simp add: gcd_mod_26)

lemma inverseMod_inverse: "gcd x 26 = 1 \<Longrightarrow> (x * inverseMod (x mod 26) 26) mod 26 = 1"
  using inverseMod_26(2) [of "x mod 26"] by (simp add: gcd_mod_26 mod_mult_left_eq)

lemma linsolve_eq:
  "linsolve (x1, y1) (x2, y2) =
     (let alpha = ((y2 - y1) * inverseMod ((x2 - x1) mod 26) 26) mod 26;
          beta = (y1 - alpha * x1) mod 26
      in if gcd (x2 - x1) 26 = 1 \<and> gcd alpha 26 = 1 then (alpha, beta) else (0, 0))"
  by (simp add: linsolve_def Let_def cm_mod_def cm_gcd_def inverseMod_zero_iff mult.commute)


lemma linsolve_sentinel: "fst (linsolve p1 p2) = 0 \<longleftrightarrow> linsolve p1 p2 = (0, 0)"
  by (cases p1; cases p2) (auto simp: linsolve_eq Let_def split: if_splits)

lemma verify_soln_sentinel: "verify_soln ciph known (0, 0) st = Inr st"
  by (simp add: verify_soln_def)

lemma linsolve_solves:
  assumes "linsolve (x1, y1) (x2, y2) = (alpha, beta)" "alpha \<noteq> 0"
  shows "(alpha * x1 + beta) mod 26 = y1 mod 26" "(alpha * x2 + beta) mod 26 = y2 mod 26"
proof -
  let ?inv = "inverseMod ((x2 - x1) mod 26) 26"
  from assms have g: "gcd (x2 - x1) 26 = 1"
    and a: "alpha = ((y2 - y1) * ?inv) mod 26"
    and b: "beta = (y1 - alpha * x1) mod 26"
    by (auto simp: linsolve_eq Let_def split: if_splits)
  show "(alpha * x1 + beta) mod 26 = y1 mod 26"
    unfolding b by (simp add: mod_simps)
  have i: "((x2 - x1) * ?inv) mod 26 = 1"
    using g by (rule inverseMod_inverse)
  have "(alpha * x2 + beta) mod 26 = (alpha * (x2 - x1) + y1) mod 26"
    unfolding b by (simp add: mod_simps algebra_simps)
  also have "\<dots> = ((y2 - y1) * ?inv * (x2 - x1) + y1) mod 26"
    unfolding a by (metis mod_add_left_eq mod_mult_left_eq)
  also have "\<dots> = ((y2 - y1) * ((x2 - x1) * ?inv) + y1) mod 26"
    by (simp add: mult.assoc mult.commute [of ?inv])
  also have "\<dots> = ((y2 - y1) * (((x2 - x1) * ?inv) mod 26) + y1) mod 26"
    by (metis mod_add_left_eq mod_mult_right_eq)
  also have "\<dots> = y2 mod 26"
    unfolding i by simp
  finally show "(alpha * x2 + beta) mod 26 = y2 mod 26" .
qed

text \<open>
  Claim C6. For any two pairs \<open>(x1, y1)\<close> and \<open>(x2, y2)\<close>, \<^verbatim>\<open>linsolve\<close> returns \<open>(\<alpha>, \<beta>)\<close> with
  \<open>\<alpha> = (y2 - y1) \<cdot> inverse(x2 - x1) mod 26\<close> and \<open>\<beta> = y1 - \<alpha> \<cdot> x1 mod 26\<close> when the inverse
  of \<open>x2 - x1\<close> modulo 26 exists and \<open>gcd(\<alpha>, 26) = 1\<close>, and the sentinel \<open>(0, 0)\<close>
  otherwise; the inverse used is an inverse whenever one exists; and on the sentinel
  the body of each of the three search loops leaves the search state as it is, so the
  loop goes on with the next combination.
\<close>

theorem linsolve_spec:
  "linsolve (x1, y1) (x2, y2) =
     (let alpha = ((y2 - y1) * inverseMod ((x2 - x1) mod 26) 26) mod 26;
          beta = (y1 - alpha * x1) mod 26
      in if (\<exists>z. ((x2 - x1) * z) mod 26 = 1) \<and> gcd alpha 26 = 1 then (alpha, beta) else (0, 0))
   \<and> ((\<exists>z. ((x2 - x1) * z) mod 26 = 1) \<longrightarrow>
        ((x2 - x1) * inverseMod ((x2 - x1) mod 26) 26) mod 26 = 1)
   \<and> (tier1_soln known i j = (0, 0) \<longrightarrow> tier1_body ciph known i j st = Inr st)
   \<and> (tier2_soln freqs known i j = (0, 0) \<longrightarrow> tier2_body ciph known freqs i j st = Inr st)
   \<and> (tier3_soln freqs i j = (0, 0) \<longrightarrow> tier3_body ciph known freqs i j st = Inr st)"
proof (intro conjI impI)
  show "linsolve (x1, y1) (x2, y2) =
     (let alpha = ((y2 - y1) * inverseMod ((x2 - x1) mod 26) 26) mod 26;
          beta = (y1 - alpha * x1) mod 26
      in if (\<exists>z. ((x2 - x1) * z) mod 26 = 1) \<and> gcd alpha 26 = 1 then (alpha, beta) else (0, 0))"
    by (simp only: linsolve_eq inverse_exists_iff)
  show "((x2 - x1) * inverseMod ((x2 - x1) mod 26) 26) mod 26 = 1"
    if "\<exists>z. ((x2 - x1) * z) mod 26 = 1"
    using that by (simp only: inverse_exists_iff inverseMod_inverse)
  show "tier1_body ciph known i j st = Inr st" if "tier1_soln known i j = (0, 0)"
    using that by (simp add: tier1_body_def)
  show "tier2_body ciph known freqs i j st = Inr st" if "tier2_soln freqs known i j = (0, 0)"
    using that by (simp add: tier2_body_def verify_soln_sentinel)
  show "tier3_body ciph known freqs i j st = Inr st" if "tier3_soln freqs i j = (0, 0)"
    using that by (simp add: tier3_body_def verify_soln_sentinel)
qed

theorem linsolve_spec_witness:
  "linsolve (1, 0) (4, 1) = (9, 17)
   \<and> (3 * inverseMod 3 26) mod 26 = 1
   \<and> tier1_soln [(CHR ''a'', CHR ''b''), (CHR ''a'', CHR ''c'')] 0 1 = (0, 0)
   \<and> tier1_body ''xyz'' [(CHR ''a'', CHR ''b''), (CHR ''a'', CHR ''c'')] 0 1 init_search = Inr init_search"
proof -
  have ex: "\<exists>z. ((4 - 1) * z) mod 26 = (1::int)"
    by (rule exI [of _ 9]) simp
  have inv: "inverseMod 3 26 = 9"
    by code_simp
  have g: "gcd (9::int) 26 = 1"
    by code_simp
  have s: "tier1_soln [(CHR ''a'', CHR ''b''), (CHR ''a'', CHR ''c'')] 0 1 = (0, 0)"
    by code_simp
  note t = linsolve_spec [of 1 0 4 1 "[(CHR ''a'', CHR ''b''), (CHR ''a'', CHR ''c'')]" 0 1
      "''xyz''" init_search "[]"]
  from t ex inv g have "linsolve (1, 0) (4, 1) = (9, 17)"
    by (simp add: Let_def)
  moreover from t ex inv have "(3 * inverseMod 3 26) mod 26 = 1"
    by simp
  moreover from t s have
    "tier1_body ''xyz'' [(CHR ''a'', CHR ''b''), (CHR ''a'', CHR ''c'')] 0 1 init_search = Inr init_search"
    by blast
  ultimately show ?thesis using s by simp
qed

lemma check_loop_eq:
  "k = 0 \<or> k = 1 \<Longrightarrow>
   check_loop msg ciph known k =
     (let pre = takeWhile (\<lambda>p. pair_status msg ciph p \<noteq> Contradicted) known;
          m = k + int (length (filter (\<lambda>p. pair_status msg ciph p = Matched) pre))
      in if 2 \<le> m then 2
         else if \<exists>p\<in>set known. pair_status msg ciph p = Contradicted then - 1
         else m)"
proof (induction known arbitrary: k)
  case Nil
  then show ?case by auto
next
  case (Cons p ps)
  show ?case
  proof (cases "pair_status msg ciph p")
    case Absent
    then have f: "str_find msg (fst p) = None"
      by (auto simp: pair_status_def split: option.splits if_splits)
    from Cons.IH [OF Cons.prems] Absent f show ?thesis
      by (simp add: Let_def)
  next
    case Matched
    then obtain index where f: "str_find msg (fst p) = Some index" "ciph ! index = snd p"
      by (auto simp: pair_status_def split: option.splits if_splits)
    show ?thesis
    proof (cases "k = 0")
      case True
      from Cons.IH [of 1] Matched f True show ?thesis
        by (simp add: Let_def)
    next
      case False
      with Cons.prems have "k = 1" by simp
      with Matched f show ?thesis
        by (simp add: Let_def)
    qed
  next
    case Contradicted
    then obtain index where f: "str_find msg (fst p) = Some index" "ciph ! index \<noteq> snd p"
      by (auto simp: pair_status_def split: option.splits if_splits)
    from Contradicted f Cons.prems show ?thesis
      by (auto simp: Let_def)
  qed
qed

text \<open>
  Claim C3, as the source has it. For a key \<open>(a, b)\<close> with \<open>a\<close> coprime to 26,
  \<^verbatim>\<open>checkSoln\<close> returns the decrypted text and a score fixed by the known pairs in list
  order, read up to the first contradicted pair: the score is 2 when two pairs match
  before any pair is contradicted; otherwise it is \<open>-1\<close> when some pair is contradicted;
  otherwise it is the number of matched pairs, which is 0 or 1 (0 in particular when no
  known plain symbol is in the decrypted text).
\<close>

theorem checkSoln_score:
  assumes "cm_gcd a 26 = 1"
  shows "checkSoln a b ciph known =
     (let msg = plain_of ciph (a, b);
          pre = takeWhile (\<lambda>p. pair_status msg ciph p \<noteq> Contradicted) known;
          m = int (length (filter (\<lambda>p. pair_status msg ciph p = Matched) pre))
      in Inr (if 2 \<le> m then 2
              else if \<exists>p\<in>set known. pair_status msg ciph p = Contradicted then - 1
              else m, msg))"
  using assms check_loop_eq [of 0 "plain_of ciph (a, b)" ciph known]
  by (simp add: checkSoln_valid Let_def)

theorem checkSoln_score_witness:
  "cm_gcd 5 26 = 1 \<and>
   checkSoln 5 8 ''ihhwvcswfrcp'' [(CHR ''a'', CHR ''i''), (CHR ''z'', CHR ''q'')]
     = Inr (1, ''affinecipher'')"
proof -
  have h: "cm_gcd 5 26 = 1"
    by code_simp
  have r: "(let msg = plain_of ''ihhwvcswfrcp'' (5, 8);
          pre = takeWhile (\<lambda>p. pair_status msg ''ihhwvcswfrcp'' p \<noteq> Contradicted)
                  [(CHR ''a'', CHR ''i''), (CHR ''z'', CHR ''q'')];
          m = int (length (filter (\<lambda>p. pair_status msg ''ihhwvcswfrcp'' p = Matched) pre))
      in Inr (if 2 \<le> m then 2
              else if \<exists>p\<in>set [(CHR ''a'', CHR ''i''), (CHR ''z'', CHR ''q'')].
                        pair_status msg ''ihhwvcswfrcp'' p = Contradicted then - 1
              else m, msg)) = (Inr (1, ''affinecipher'') :: error + int \<times> string)"
    by code_simp
  show ?thesis
    using checkSoln_score [OF h, of 8 "''ihhwvcswfrcp''" "[(CHR ''a'', CHR ''i''), (CHR ''z'', CHR ''q'')]"] h r
    by simp
qed

theorem checkSoln_score_counterexample:
  "checkSoln 1 1 ''bcd'' [(CHR ''a'', CHR ''b''), (CHR ''b'', CHR ''c''), (CHR ''c'', CHR ''z'')]
     = Inr (2, ''abc'')
   \<and> pair_status ''abc'' ''bcd'' (CHR ''c'', CHR ''z'') = Contradicted"
  by code_simp

section \<open>The search loops\<close>

lemma for_loop_done: "dn st \<Longrightarrow> for_loop dn xs body st = Inr st"
  by (cases xs) simp_all

lemma take_until_all: "(\<forall>x\<in>set xs. \<not> P x) \<Longrightarrow> take_until P xs = xs"
  by (induction xs) auto

lemma take_until_append:
  "take_until P (xs @ ys) =
     (if \<exists>x\<in>set xs. P x then take_until P xs else xs @ take_until P ys)"
  by (induction xs) auto

lemma set_take_until: "set (take_until P xs) \<subseteq> set xs"
  by (induction xs) auto

lemma take_until_map: "take_until P (map f xs) = map f (take_until (\<lambda>x. P (f x)) xs)"
  by (induction xs) auto

lemma take_until_concat:
  "concat (map E (take_until P (concat (map g as)))) =
   concat (map (\<lambda>a. concat (map E (take_until P (g a))))
               (take_until (\<lambda>a. \<exists>x\<in>set (g a). P x) as))"
proof (induction as)
  case Nil
  then show ?case by simp
next
  case (Cons a as)
  show ?case
  proof (cases "\<exists>x\<in>set (g a). P x")
    case True
    then show ?thesis by (simp add: take_until_append)
  next
    case False
    then have "take_until P (g a) = g a"
      by (simp add: take_until_all)
    with False Cons.IH show ?thesis
      by (simp add: take_until_append)
  qed
qed

lemma take_until_filter:
  "(\<And>x. x \<in> set xs \<Longrightarrow> \<not> keep x \<Longrightarrow> \<not> P x \<and> E x = []) \<Longrightarrow>
   concat (map E (take_until P xs)) = concat (map E (take_until P (filter keep xs)))"
  by (induction xs) auto

lemma for_loop_search:
  assumes "\<And>i out. i \<in> set xs \<Longrightarrow> body i (False, out) = Inr (P i, out @ E i)"
  shows "for_loop fst xs body (False, out) =
           Inr (\<exists>i\<in>set xs. P i, out @ concat (map E (take_until P xs)))"
  using assms
proof (induction xs arbitrary: out)
  case Nil
  then show ?case by simp
next
  case (Cons x xs)
  have b: "body x (False, out) = Inr (P x, out @ E x)"
    by (rule Cons.prems) simp
  show ?case
  proof (cases "P x")
    case True
    with b show ?thesis
      by (simp add: for_loop_done)
  next
    case False
    have "for_loop fst xs body (False, out @ E x) =
            Inr (\<exists>i\<in>set xs. P i, (out @ E x) @ concat (map E (take_until P xs)))"
      by (rule Cons.IH) (simp add: Cons.prems)
    with b False show ?thesis by simp
  qed
qed

lemma take_until_filter_keep: "x \<in> set (take_until P (filter keep xs)) \<Longrightarrow> keep x"
  by (induction xs) (auto split: if_splits)

lemma nested_search:
  assumes inner: "\<And>i j out. keep i \<Longrightarrow> body i j (False, out) = Inr (P (i, j), out @ E (i, j))"
    and invalid: "\<And>i j. \<not> keep i \<Longrightarrow> \<not> P (i, j)"
  shows "\<exists>d. for_loop fst as (\<lambda>i st. if keep i then for_loop fst js (body i) st else Inr st) (False, [])
           = Inr (d, concat (map E (take_until P
                    (concat (map (\<lambda>a. map (\<lambda>b. (a, b)) js) (filter keep as))))))"
proof -
  let ?g = "\<lambda>a. map (\<lambda>b. (a, b)) js"
  let ?Po = "\<lambda>i. \<exists>k\<in>set (?g i). P k"
  let ?Eo' = "\<lambda>i. concat (map E (take_until P (?g i)))"
  let ?Eo = "\<lambda>i. if keep i then ?Eo' i else []"
  let ?body = "\<lambda>i st. if keep i then for_loop fst js (body i) st else Inr st"
  have inv: "\<not> ?Po i" if "\<not> keep i" for i
    using invalid [OF that] by simp
  have step: "?body i (False, out) = Inr (?Po i, out @ ?Eo i)" for i out
  proof (cases "keep i")
    case True
    have "for_loop fst js (body i) (False, out) =
            Inr (\<exists>j\<in>set js. P (i, j), out @ concat (map (\<lambda>j. E (i, j)) (take_until (\<lambda>j. P (i, j)) js)))"
      by (rule for_loop_search) (simp add: inner [OF True])
    with True show ?thesis
      by (simp add: take_until_map comp_def)
  next
    case False
    with inv [OF False] show ?thesis
      by simp
  qed
  have run: "for_loop fst as ?body (False, []) =
          Inr (\<exists>i\<in>set as. ?Po i, [] @ concat (map ?Eo (take_until ?Po as)))"
    by (rule for_loop_search) (rule step)
  have skip: "\<not> ?Po x \<and> ?Eo x = []" if "\<not> keep x" for x
    using inv [OF that] that by simp
  have "concat (map ?Eo (take_until ?Po as)) = concat (map ?Eo (take_until ?Po (filter keep as)))"
    by (rule take_until_filter) (rule skip)
  also have "\<dots> = concat (map ?Eo' (take_until ?Po (filter keep as)))"
  proof -
    have "keep x" if "x \<in> set (take_until ?Po (filter keep as))" for x
      using that by (rule take_until_filter_keep)
    then have "map ?Eo (take_until ?Po (filter keep as)) = map ?Eo' (take_until ?Po (filter keep as))"
      by (intro map_cong) simp_all
    then show ?thesis by (rule arg_cong [of _ _ concat])
  qed
  also have "\<dots> = concat (map E (take_until P (concat (map ?g (filter keep as)))))"
    by (rule take_until_concat [symmetric])
  finally show ?thesis
    using run by simp
qed

lemma all_body_valid:
  assumes "cm_gcd i 26 = 1"
  shows "all_body ciph known i j (False, out) =
     Inr (MatchScore ciph known (i, j) = Some 2,
          out @ (if MatchScore ciph known (i, j) \<noteq> Some (- 1)
                 then [(fst (i, j), snd (i, j), plain_of ciph (i, j))] else []))"
  using assms by (simp add: all_body_def MatchScore_def checkSoln_valid)

lemma MatchScore_invalid: "cm_gcd i 26 \<noteq> 1 \<Longrightarrow> MatchScore ciph known (i, j) \<noteq> Some 2"
  by (simp add: MatchScore_def checkSoln_def decrypt_invalid)

lemma coprime_residues:
  "filter (\<lambda>a. cm_gcd a 26 = 1) (map int [0..<26]) = filter (\<lambda>a. gcd a 26 = 1) (map int [1..<26])"
  by code_simp

lemma concat_singletons:
  "concat (map (\<lambda>k. if Q k then [f k] else []) xs) = map f (filter Q xs)"
  by (induction xs) auto

text \<open>
  Claim C2. The brute-force crack (\<^verbatim>\<open>-ca\<close>) prints a candidate \<open>(\<alpha>, \<beta>)\<close> if and only if
  it is evaluated before termination and its MatchScore is not \<open>-1\<close>: the candidates are
  tried in the order \<open>\<alpha>\<close> ascending in \<open>[1, 26)\<close> with \<open>gcd(\<alpha>, 26) = 1\<close>, then \<open>\<beta>\<close>
  ascending in \<open>[0, 26)\<close>; the evaluated ones are those up to and including the first
  whose MatchScore is 2; and the rows printed are, in this order, the evaluated ones
  whose MatchScore is not \<open>-1\<close>, each with its decrypted text.
\<close>

theorem crack_all_spec:
  "crack_all ciph known =
     Inr (map (\<lambda>k. (fst k, snd k, plain_of ciph k))
            (filter (\<lambda>k. MatchScore ciph known k \<noteq> Some (- 1))
               (take_until (\<lambda>k. MatchScore ciph known k = Some 2) spec_candidates)))"
proof -
  let ?P = "\<lambda>k. MatchScore ciph known k = Some 2"
  let ?Q = "\<lambda>k. MatchScore ciph known k \<noteq> Some (- 1)"
  let ?f = "\<lambda>k. (fst k, snd k, plain_of ciph k)"
  let ?E = "\<lambda>k. if ?Q k then [?f k] else []"
  have "\<exists>d. for_loop fst (map int [0..<26])
              (\<lambda>i st. if cm_gcd i 26 = 1
                       then for_loop fst (map int [0..<26]) (all_body ciph known i) st
                       else Inr st) (False, [])
          = Inr (d, concat (map ?E (take_until ?P
                    (concat (map (\<lambda>a. map (\<lambda>b. (a, b)) (map int [0..<26]))
                                 (filter (\<lambda>a. cm_gcd a 26 = 1) (map int [0..<26])))))))"
    by (rule nested_search) (rule all_body_valid, assumption, rule MatchScore_invalid)
  then obtain d where "for_loop fst (map int [0..<26])
              (\<lambda>i st. if cm_gcd i 26 = 1
                       then for_loop fst (map int [0..<26]) (all_body ciph known i) st
                       else Inr st) (False, [])
          = Inr (d, concat (map ?E (take_until ?P spec_candidates)))"
    unfolding spec_candidates_def coprime_residues by blast
  then have "crack_all ciph known = Inr (concat (map ?E (take_until ?P spec_candidates)))"
    unfolding crack_all_def by (simp only: sum.case snd_conv)
  then show ?thesis
    by (simp only: concat_singletons)
qed

section \<open>The known-driven crack\<close>





















text \<open>
  Claim C7 fails on the source. For the ciphertext \<^verbatim>\<open>bbb\<close> and the known pair
  \<open>b \<rightarrow> a\<close>, the most frequent ciphertext symbol is \<open>b\<close> and the hypothesis of rank 0
  is \<open>e \<rightarrow> b\<close>. Neither its plain symbol nor its cipher symbol is that of the known pair,
  so the combination does not collide; the guard of the source is false all the same
  (it compares the ranked cipher symbol with the known plain symbol), and the body
  leaves the search state as it is. The skipped combination solves to \<open>(9, 17)\<close>, which
  \<^verbatim>\<open>checkSoln\<close> scores 0 and the verification block would have printed.
\<close>

theorem tier2_skips_without_collision:
  "\<not> spec_collides ranked_bbb [(CHR ''b'', CHR ''a'')] 0 0
   \<and> \<not> tier2_guard ranked_bbb [(CHR ''b'', CHR ''a'')] 0 0
   \<and> tier2_body ''bbb'' [(CHR ''b'', CHR ''a'')] ranked_bbb 0 0 init_search = Inr init_search
   \<and> tier2_soln ranked_bbb [(CHR ''b'', CHR ''a'')] 0 0 = (9, 17)
   \<and> checkSoln 9 17 ''bbb'' [(CHR ''b'', CHR ''a'')] = Inr (0, ''eee'')
   \<and> verify_soln ''bbb'' [(CHR ''b'', CHR ''a'')] (9, 17) init_search
       = Inr \<lparr>is_done = False, tested = {(9, 17)}, printed = [(9, 17, ''eee'')]\<rparr>"
  by code_simp

section \<open>The Vigenere sample\<close>

lemma filter_line_letters: "filter_line (replicate n (CHR ''a'')) = replicate n (CHR ''a'')"
proof -
  have "to_lower (CHR ''a'') = CHR ''a''"
    by code_simp
  moreover have "str_find ALPHABET (CHR ''a'') \<noteq> None"
    by code_simp
  ultimately show ?thesis
    by (simp add: filter_line_def)
qed

text \<open>
  Claim C8 fails on the source. The size of the sample is tested before a line is read,
  and the whole line is appended: a single line of 2001 letters gives a sample of 2001
  symbols.
\<close>

theorem read_sample_exceeds_cap:
  "length (read_sample [replicate 2001 (CHR ''a'')] []) = 2001"
  by (simp add: filter_line_letters)

section \<open>The count table of a column\<close>

lemma length_init_table: "length init_table = 255"
  by (simp add: init_table_def)

lemma char_of_code_iff: "k < 255 \<Longrightarrow> char_of k = c \<longleftrightarrow> k = (of_char c :: nat)"
proof
  assume "k < 255" "char_of k = c"
  then have "(of_char c :: nat) = k mod 256" by auto
  with \<open>k < 255\<close> show "k = of_char c" by simp
next
  assume "k = (of_char c :: nat)"
  then show "char_of k = c" by simp
qed

lemma count_step:
  "(let i = of_char c in
      if i < length (map (\<lambda>k. (char_of k, f k)) [0..<255])
      then (map (\<lambda>k. (char_of k, f k)) [0..<255])[i := inc_count (map (\<lambda>k. (char_of k, f k)) [0..<255] ! i)]
      else map (\<lambda>k. (char_of k, f k)) [0..<255])
   = map (\<lambda>k::nat. (char_of k :: char, f k + (if c = char_of k then 1 else (0 :: int)))) [0..<255]"
  (is "?l = ?r")
proof (rule nth_equalityI)
  show "length ?l = length ?r"
    by (simp add: Let_def)
next
  fix k assume "k < length ?l"
  then have k: "k < 255" by (simp add: Let_def split: if_splits)
  then show "?l ! k = ?r ! k"
    using char_of_code_iff [OF k, of c]
    by (auto simp: Let_def inc_count_def nth_list_update)
qed

lemma countFrequencies_table:
  "countFrequencies str (map (\<lambda>k. (char_of k, f k)) [0..<255]) inc_count
     = map (\<lambda>k. (char_of k, f k + int (count_list str (char_of k)))) [0..<255]"
proof (induction str arbitrary: f)
  case Nil
  then show ?case by (simp add: countFrequencies_def)
next
  case (Cons c str)
  have "countFrequencies (c # str) (map (\<lambda>k. (char_of k, f k)) [0..<255]) inc_count
      = countFrequencies str (map (\<lambda>k::nat. (char_of k :: char, f k + (if c = char_of k then 1 else 0))) [0..<255]) inc_count"
    unfolding countFrequencies_def foldl_Cons count_step ..
  also have "\<dots> = map (\<lambda>k. (char_of k, f k + (if c = char_of k then 1 else 0) + int (count_list str (char_of k)))) [0..<255]"
    by (rule Cons.IH)
  also have "\<dots> = map (\<lambda>k. (char_of k, f k + int (count_list (c # str) (char_of k)))) [0..<255]"
    by simp
  finally show ?case .
qed

lemma column_table:
  "countFrequencies col init_table inc_count
     = map (\<lambda>k. (char_of k, int (count_list col (char_of k)))) [0..<255]"
  using countFrequencies_table [of col "\<lambda>k. 0"] by (simp add: init_table_def)

lemma alphabet_codes: "map of_char ALPHABET = [97..<123 :: nat]"
  by (simp add: ALPHABET_def upt_rec_numeral)

lemma in_alphabet_iff: "c \<in> set ALPHABET \<longleftrightarrow> 97 \<le> (of_char c :: nat) \<and> (of_char c :: nat) < 123"
proof -
  have "c \<in> set ALPHABET \<longleftrightarrow> (of_char c :: nat) \<in> set (map of_char ALPHABET)"
    by (auto simp del: of_char_eq_iff dest: of_char_eqI)
  also have "\<dots> \<longleftrightarrow> 97 \<le> (of_char c :: nat) \<and> (of_char c :: nat) < 123"
    unfolding alphabet_codes by (simp only: set_upt atLeastLessThan_iff)
  finally show ?thesis .
qed

lemma schar_of_char:
  "schar c = (if (of_char c :: nat) < 128 then int (of_char c) else int (of_char c) - 256)"
proof -
  have "(of_char c :: int) = int (of_char c)"
    by (simp only: of_nat_of_char)
  then show ?thesis
    by (simp add: schar_def Let_def)
qed

lemma letter_entry_iff: "letter_entry p \<longleftrightarrow> fst p \<in> set ALPHABET"
proof -
  have a: "schar (CHR ''a'') = 97"
    by (simp add: schar_def)
  show ?thesis
    unfolding letter_entry_def in_alphabet_iff a
    by (simp add: schar_of_char) (use nat_of_char_less_256 [of "fst p"] in linarith)
qed

lemma letter_range: "filter (\<lambda>k. 97 \<le> k \<and> k < 123) [0..<255] = [97..<123 :: nat]"
proof -
  have "[0..<255] = [0..<97] @ [97..<123] @ [123..<255 :: nat]"
    using upt_add_eq_append [of 0 97 158] upt_add_eq_append [of 97 123 132] by simp
  moreover have "filter (\<lambda>k. 97 \<le> k \<and> k < 123) [0..<97 :: nat] = []"
    by (simp add: filter_empty_conv)
  moreover have "filter (\<lambda>k. 97 \<le> k \<and> k < 123) [123..<255 :: nat] = []"
    by (simp add: filter_empty_conv)
  moreover have "filter (\<lambda>k. 97 \<le> k \<and> k < 123) [97..<123 :: nat] = [97..<123]"
    by (simp add: filter_id_conv)
  ultimately show ?thesis by simp
qed

lemma table_entry:
  assumes "p \<in> set (countFrequencies col init_table inc_count)"
  shows "snd p = int (count_list col (fst p))"
  using assms unfolding column_table by auto

lemma table_positive_iff:
  assumes "p \<in> set (countFrequencies col init_table inc_count)"
  shows "0 < snd p \<longleftrightarrow> fst p \<in> set col"
  using table_entry [OF assms] count_list_0_iff [of col "fst p"] by auto

lemma table_positives:
  assumes "set col \<subseteq> set ALPHABET"
  shows "filter (\<lambda>p. 0 < snd p) (countFrequencies col init_table inc_count)
     = map (\<lambda>k. (char_of k, int (count_list col (char_of k))))
         (filter (\<lambda>k. char_of k \<in> set col) [97..<123])"
proof -
  have c: "0 < count_list col x \<longleftrightarrow> x \<in> set col" for x
    using count_list_0_iff [of col x] by auto
  have "filter (\<lambda>k::nat. char_of k \<in> set col) [0..<255]
      = filter (\<lambda>k. char_of k \<in> set col) (filter (\<lambda>k. 97 \<le> k \<and> k < 123) [0..<255])"
  proof -
    have "97 \<le> k \<and> k < 123" if "k < 255" "char_of k \<in> set col" for k :: nat
    proof -
      from that(2) assms have "char_of k \<in> set ALPHABET" by blast
      then have "97 \<le> (of_char (char_of k :: char) :: nat) \<and> (of_char (char_of k :: char) :: nat) < 123"
        by (simp only: in_alphabet_iff)
      with that(1) show ?thesis by simp
    qed
    then show ?thesis
      by (auto simp: filter_filter intro!: filter_cong)
  qed
  then show ?thesis
    unfolding column_table letter_range
    by (simp add: filter_map comp_def c)
qed

lemma table_positives_all:
  assumes "set col \<subseteq> set ALPHABET" "set ALPHABET \<subseteq> set col"
  shows "length (filter (\<lambda>p. 0 < snd p) (countFrequencies col init_table inc_count)) = 26"
proof -
  have "char_of k \<in> set col" if "k \<in> set [97..<123 :: nat]" for k
  proof -
    from that have "97 \<le> k \<and> k < 123"
      by (simp only: set_upt atLeastLessThan_iff)
    then have "97 \<le> (of_char (char_of k :: char) :: nat) \<and> (of_char (char_of k :: char) :: nat) < 123"
      by simp
    then have "char_of k \<in> set ALPHABET"
      by (simp only: in_alphabet_iff)
    with assms(2) show ?thesis by blast
  qed
  then have "filter (\<lambda>k::nat. char_of k \<in> set col) [97..<123] = [97..<123]"
    by (simp only: filter_id_conv) blast
  then show ?thesis
    unfolding table_positives [OF assms(1)] by simp
qed

lemma table_positives_less:
  assumes "set col \<subseteq> set ALPHABET" "\<not> set ALPHABET \<subseteq> set col"
  shows "length (filter (\<lambda>p. 0 < snd p) (countFrequencies col init_table inc_count)) < 26"
proof -
  from assms(2) obtain c where c: "c \<in> set ALPHABET" "c \<notin> set col" by blast
  from c(1) have "(of_char c :: nat) \<in> set [97..<123]"
    by (simp only: in_alphabet_iff set_upt atLeastLessThan_iff)
  moreover have "\<not> char_of (of_char c :: nat) \<in> set col"
    using c(2) by simp
  ultimately have "length (filter (\<lambda>k::nat. char_of k \<in> set col) [97..<123]) < length [97..<123 :: nat]"
    by (intro length_filter_less)
  then show ?thesis
    unfolding table_positives [OF assms(1)] by simp
qed

section \<open>The sorted table and the write into \<^verbatim>\<open>W\<close>\<close>

lemma sorted_prefix_positive:
  assumes "sorted_wrt (\<lambda>l r. snd r \<le> snd l) (ys :: (char \<times> int) list)"
    and "i < length ys" and "\<not> 0 < snd (ys ! i)"
  shows "length (filter (\<lambda>p. 0 < snd p) ys) \<le> i"
proof -
  have "\<not> 0 < snd p" if "p \<in> set (drop i ys)" for p
  proof -
    from that obtain j where j: "p = ys ! j" "i \<le> j" "j < length ys"
      by (auto simp: in_set_conv_nth)
    show ?thesis
    proof (cases "i = j")
      case True
      with assms(3) j(1) show ?thesis by simp
    next
      case False
      with j(2) have "i < j" by simp
      from sorted_wrt_nth_less [OF assms(1) this j(3)] have "snd (ys ! j) \<le> snd (ys ! i)" .
      with assms(3) j(1) show ?thesis by simp
    qed
  qed
  then have "filter (\<lambda>p. 0 < snd p) (drop i ys) = []"
    by (simp add: filter_empty_conv)
  then have "filter (\<lambda>p. 0 < snd p) ys = filter (\<lambda>p. 0 < snd p) (take i ys)"
    using append_take_drop_id [of i ys] filter_append [of "\<lambda>p. 0 < snd p" "take i ys" "drop i ys"]
    by simp
  moreover have "length (filter (\<lambda>p. 0 < snd p) (take i ys)) \<le> length (take i ys)"
    by (rule length_filter_le)
  ultimately show ?thesis by simp
qed

lemma sort_result_length: "sort_result t ys \<Longrightarrow> length ys = length t"
  unfolding sort_result_def by (auto dest: mset_eq_length)

lemma sort_result_set: "sort_result t ys \<Longrightarrow> set ys = set t"
  unfolding sort_result_def by (auto dest: mset_eq_setD)

lemma sort_result_filter:
  assumes "sort_result t ys"
  shows "length (filter P ys) = length (filter P t)"
proof -
  from assms have "mset (filter P ys) = mset (filter P t)"
    by (simp add: sort_result_def)
  then show ?thesis by (rule mset_eq_length)
qed

lemma sort_result_stable: "sort_result t (stable_sort t)"
  unfolding sort_result_def stable_sort_def
  using sorted_sort_key [of "\<lambda>p. - snd p" t]
  by (simp add: sorted_map)

lemma sort_spec_stable: "sort_spec stable_sort"
  unfolding sort_spec_def by (simp add: sort_result_stable)

lemma top_ranks_letters:
  assumes "set col \<subseteq> set ALPHABET" "set ALPHABET \<subseteq> set col"
    and "sort_result (countFrequencies col init_table inc_count) ys"
    and "i < 26"
  shows "letter_entry (ys ! i) \<and> 0 < snd (ys ! i)"
proof -
  let ?t = "countFrequencies col init_table inc_count"
  have len: "length ys = 255"
    using sort_result_length [OF assms(3)] by (simp add: column_table)
  have n: "length (filter (\<lambda>p. 0 < snd p) ys) = 26"
    using sort_result_filter [OF assms(3)] table_positives_all [OF assms(1,2)] by simp
  have s: "sorted_wrt (\<lambda>l r. snd r \<le> snd l) ys"
    using assms(3) by (simp add: sort_result_def)
  have pos: "0 < snd (ys ! i)"
  proof (rule ccontr)
    assume "\<not> 0 < snd (ys ! i)"
    with s len assms(4) have "length (filter (\<lambda>p. 0 < snd p) ys) \<le> i"
      by (intro sorted_prefix_positive) simp_all
    with n assms(4) show False by simp
  qed
  have "ys ! i \<in> set ?t"
    using sort_result_set [OF assms(3)] len assms(4) nth_mem [of i ys] by simp
  with pos have "fst (ys ! i) \<in> set col"
    by (simp add: table_positive_iff)
  with assms(1) have "letter_entry (ys ! i)"
    unfolding letter_entry_iff by blast
  with pos show ?thesis by simp
qed

lemma fill_W_letters:
  assumes "n \<noteq> 0" "length W = 26" "\<forall>i\<in>set ranks. letter_entry (freqs ! i)"
  shows "\<exists>W'. fill_W freqs n ranks W = Inr W' \<and> length W' = 26"
  using assms(2,3)
proof (induction ranks arbitrary: W)
  case Nil
  then show ?case by simp
next
  case (Cons i ranks)
  let ?idx = "schar (fst (freqs ! i)) - schar (CHR ''a'')"
  from Cons.prems(2) have "0 \<le> ?idx \<and> ?idx < 26"
    by (simp add: letter_entry_def)
  moreover have "\<exists>W'. fill_W freqs n ranks (W[nat ?idx := of_int (snd (freqs ! i)) / of_nat n]) = Inr W'
      \<and> length W' = 26"
    using Cons.prems by (intro Cons.IH) simp_all
  ultimately show ?case
    using assms(1) Cons.prems(1) by (simp add: Let_def)
qed

lemma fill_W_non_letter:
  assumes "n \<noteq> 0" "length W = 26" "\<exists>i\<in>set ranks. \<not> letter_entry (freqs ! i)"
  shows "\<exists>e. (e < 0 \<or> 26 \<le> e) \<and> fill_W freqs n ranks W = Inl (IndexOutOfRange e)"
  using assms(2,3)
proof (induction ranks arbitrary: W)
  case Nil
  then show ?case by simp
next
  case (Cons i ranks)
  let ?idx = "schar (fst (freqs ! i)) - schar (CHR ''a'')"
  show ?case
  proof (cases "letter_entry (freqs ! i)")
    case True
    then have r: "0 \<le> ?idx \<and> ?idx < 26"
      by (simp add: letter_entry_def)
    from True Cons.prems(2) have "\<exists>i\<in>set ranks. \<not> letter_entry (freqs ! i)"
      by simp
    then have "\<exists>e. (e < 0 \<or> 26 \<le> e) \<and>
        fill_W freqs n ranks (W[nat ?idx := of_int (snd (freqs ! i)) / of_nat n]) = Inl (IndexOutOfRange e)"
      using Cons.prems(1) by (intro Cons.IH) simp_all
    with r show ?thesis
      using assms(1) Cons.prems(1) by (simp add: Let_def)
  next
    case False
    then have "?idx < 0 \<or> 26 \<le> ?idx"
      by (auto simp: letter_entry_def)
    then show ?thesis
      using assms(1) Cons.prems(1) by (auto simp: Let_def)
  qed
qed

lemma sorted_key_split:
  fixes f :: "'a \<Rightarrow> int"
  assumes "sorted (map f ys)"
  shows "ys = filter (\<lambda>y. f y < c) ys @ filter (\<lambda>y. \<not> f y < c) ys"
  using assms
proof (induction ys)
  case Nil
  then show ?case by simp
next
  case (Cons y ys)
  show ?case
  proof (cases "f y < c")
    case True
    with Cons show ?thesis by simp
  next
    case False
    with Cons.prems have "\<forall>z\<in>set ys. \<not> f z < c"
      by auto
    then have "filter (\<lambda>y. f y < c) ys = []" "filter (\<lambda>y. \<not> f y < c) ys = ys"
      by (simp_all add: filter_empty_conv filter_id_conv)
    with False show ?thesis by simp
  qed
qed

lemma rank_range: "i \<in> set [0..<26] \<longleftrightarrow> i < (26::nat)"
  by (simp only: set_upt atLeastLessThan_iff) simp

lemma nul_not_letter: "(char_of (0::nat) :: char) \<notin> set ALPHABET"
  by (simp add: in_alphabet_iff)

lemma stable_zero_rank:
  assumes "set col \<subseteq> set ALPHABET"
  shows "stable_sort (countFrequencies col init_table inc_count)
           ! length (filter (\<lambda>p. 0 < snd p) (countFrequencies col init_table inc_count))
         = (char_of (0::nat), 0)"
proof -
  let ?t = "countFrequencies col init_table inc_count"
  let ?ys = "stable_sort ?t"
  let ?f = "\<lambda>p :: char \<times> int. - snd p"
  have sr: "sort_result ?t ?ys"
    by (rule sort_result_stable)
  have "sorted (map ?f ?ys)"
    unfolding stable_sort_def by (rule sorted_sort_key)
  then have split: "?ys = filter (\<lambda>y. ?f y < 0) ?ys @ filter (\<lambda>y. \<not> ?f y < 0) ?ys"
    by (rule sorted_key_split)
  have l: "length (filter (\<lambda>y. ?f y < 0) ?ys) = length (filter (\<lambda>p. 0 < snd p) ?t)"
    using sort_result_filter [OF sr, of "\<lambda>p. 0 < snd p"] by simp
  have nonneg: "0 \<le> snd p" if "p \<in> set ?ys" for p
    using that sort_result_set [OF sr] table_entry [of p col] by simp
  have z: "(\<not> 0 < snd p) = (snd p = 0)" if "p \<in> set ?ys" for p
    using nonneg [OF that] by auto
  have "filter (\<lambda>y. \<not> ?f y < 0) ?ys = filter (\<lambda>y. ?f y = 0) ?ys"
    by (rule filter_cong) (simp_all add: z)
  also have "\<dots> = filter (\<lambda>y. ?f y = 0) ?t"
    unfolding stable_sort_def by (rule sort_key_stable)
  also have "\<dots> = (char_of (0::nat), 0) # filter (\<lambda>y. ?f y = 0)
        (map (\<lambda>k. (char_of k, int (count_list col (char_of k)))) [Suc 0..<255])"
  proof -
    have "(char_of (0::nat) :: char) \<notin> set col"
      using assms nul_not_letter by blast
    then have "count_list col (char_of (0::nat)) = 0"
      by (simp add: count_list_0_iff)
    moreover have "[0..<255] = 0 # [Suc 0..<255]"
      by (rule upt_conv_Cons) simp
    ultimately show ?thesis
      unfolding column_table by simp
  qed
  finally have "filter (\<lambda>y. \<not> ?f y < 0) ?ys ! 0 = (char_of (0::nat), 0)"
    by simp
  moreover have "?ys ! length (filter (\<lambda>y. ?f y < 0) ?ys) = filter (\<lambda>y. \<not> ?f y < 0) ?ys ! 0"
    using split nth_append_length_plus [of "filter (\<lambda>y. ?f y < 0) ?ys" "filter (\<lambda>y. \<not> ?f y < 0) ?ys" 0]
    by simp
  ultimately show ?thesis
    using l by simp
qed

text \<open>
  Claim C10. In the key recovery of the Vigenere tool, for a column of alphabet symbols,
  the indices \<^verbatim>\<open>freqs[i].first - 'a'\<close> of the 26 highest-ranked entries of the sorted
  count table lie in \<open>[0, 26)\<close> for every outcome of the descending sort exactly when all
  26 letters occur in the column; for a non-empty column this is exactly when the loop
  that fills \<^verbatim>\<open>W\<close> ends without a write outside \<^verbatim>\<open>W\<close>. When some letter is absent, there
  is an outcome of the sort (the one that keeps equal counts in table order) in which an
  entry of count 0 for a symbol that is no letter ranks among the first 26.
\<close>

theorem W_index_in_bounds_iff:
  assumes "set col \<subseteq> set ALPHABET"
  shows "((\<forall>ys. sort_result (countFrequencies col init_table inc_count) ys \<longrightarrow>
             (\<forall>i<26. letter_entry (ys ! i))) \<longleftrightarrow> set ALPHABET \<subseteq> set col)
       \<and> (col \<noteq> [] \<longrightarrow>
            ((\<forall>ys. sort_result (countFrequencies col init_table inc_count) ys \<longrightarrow>
               (\<exists>W. fill_W ys (length col) [0..<26] (replicate 26 0) = Inr W))
             \<longleftrightarrow> set ALPHABET \<subseteq> set col))
       \<and> (\<not> set ALPHABET \<subseteq> set col \<longrightarrow>
            sort_result (countFrequencies col init_table inc_count)
              (stable_sort (countFrequencies col init_table inc_count)) \<and>
            (\<exists>i<26. snd (stable_sort (countFrequencies col init_table inc_count) ! i) = 0 \<and>
                     \<not> letter_entry (stable_sort (countFrequencies col init_table inc_count) ! i)))"
proof -
  let ?t = "countFrequencies col init_table inc_count"
  let ?k = "length (filter (\<lambda>p. 0 < snd p) ?t)"
  have all: "\<forall>i<26. letter_entry (ys ! i)" if "set ALPHABET \<subseteq> set col" "sort_result ?t ys" for ys
    using top_ranks_letters [OF assms that] by simp
  have absent: "sort_result ?t (stable_sort ?t) \<and>
      (\<exists>i<26. snd (stable_sort ?t ! i) = 0 \<and> \<not> letter_entry (stable_sort ?t ! i))"
    if "\<not> set ALPHABET \<subseteq> set col"
  proof -
    have "?k < 26"
      using assms that by (rule table_positives_less)
    moreover have "stable_sort ?t ! ?k = (char_of (0::nat), 0)"
      using assms by (rule stable_zero_rank)
    moreover have "\<not> letter_entry (char_of (0::nat), 0)"
      unfolding letter_entry_iff using nul_not_letter by simp
    ultimately show ?thesis
      using sort_result_stable [of ?t] by (intro conjI exI [of _ ?k]) simp_all
  qed
  have one: "(\<forall>ys. sort_result ?t ys \<longrightarrow> (\<forall>i<26. letter_entry (ys ! i))) \<longleftrightarrow> set ALPHABET \<subseteq> set col"
    using all absent by blast
  have two: "(\<forall>ys. sort_result ?t ys \<longrightarrow> (\<exists>W. fill_W ys (length col) [0..<26] (replicate 26 0) = Inr W))
      \<longleftrightarrow> set ALPHABET \<subseteq> set col" if ne: "col \<noteq> []"
  proof
    assume a: "set ALPHABET \<subseteq> set col"
    show "\<forall>ys. sort_result ?t ys \<longrightarrow> (\<exists>W. fill_W ys (length col) [0..<26] (replicate 26 0) = Inr W)"
    proof (intro allI impI)
      fix ys assume "sort_result ?t ys"
      with all [OF a] have l: "\<forall>i<26. letter_entry (ys ! i)"
        by blast
      have "\<forall>i\<in>set [0..<26]. letter_entry (ys ! i)"
      proof
        fix i :: nat assume "i \<in> set [0..<26]"
        then have "i < 26" by (simp only: rank_range)
        with l show "letter_entry (ys ! i)" by blast
      qed
      with ne have "\<exists>W'. fill_W ys (length col) [0..<26] (replicate 26 0) = Inr W' \<and> length W' = 26"
        by (intro fill_W_letters) simp_all
      then show "\<exists>W. fill_W ys (length col) [0..<26] (replicate 26 0) = Inr W"
        by blast
    qed
  next
    assume r: "\<forall>ys. sort_result ?t ys \<longrightarrow> (\<exists>W. fill_W ys (length col) [0..<26] (replicate 26 0) = Inr W)"
    show "set ALPHABET \<subseteq> set col"
    proof (rule ccontr)
      assume "\<not> set ALPHABET \<subseteq> set col"
      from absent [OF this] obtain i where i: "sort_result ?t (stable_sort ?t)" "i < 26"
        "\<not> letter_entry (stable_sort ?t ! i)"
        by blast
      from i(2) have "i \<in> set [0..<26]"
        by (simp only: rank_range)
      with i(3) have "\<exists>i\<in>set [0..<26]. \<not> letter_entry (stable_sort ?t ! i)"
        by blast
      with ne have "\<exists>e. (e < 0 \<or> 26 \<le> e) \<and>
          fill_W (stable_sort ?t) (length col) [0..<26] (replicate 26 0) = Inl (IndexOutOfRange e)"
        by (intro fill_W_non_letter) simp_all
      with r i(1) show False by fastforce
    qed
  qed
  from one two absent show ?thesis by blast
qed

theorem W_index_in_bounds_iff_witness:
  "set ALPHABET \<subseteq> set ALPHABET
   \<and> (\<exists>W. fill_W (stable_sort (countFrequencies ALPHABET init_table inc_count)) (length ALPHABET)
             [0..<26] (replicate 26 0) = Inr W)
   \<and> set ''ab'' \<subseteq> set ALPHABET
   \<and> (\<exists>i<26. snd (stable_sort (countFrequencies ''ab'' init_table inc_count) ! i) = 0 \<and>
               \<not> letter_entry (stable_sort (countFrequencies ''ab'' init_table inc_count) ! i))"
proof -
  have ne: "ALPHABET \<noteq> []"
    by (simp add: ALPHABET_def)
  have ab: "set ''ab'' \<subseteq> set ALPHABET"
    by (simp add: ALPHABET_def)
  have nab: "\<not> set ALPHABET \<subseteq> set ''ab''"
    by (simp add: ALPHABET_def)
  from W_index_in_bounds_iff [of ALPHABET] ne sort_result_stable
  have "\<exists>W. fill_W (stable_sort (countFrequencies ALPHABET init_table inc_count)) (length ALPHABET)
             [0..<26] (replicate 26 0) = Inr W"
    by blast
  moreover from W_index_in_bounds_iff [OF ab] nab
  have "\<exists>i<26. snd (stable_sort (countFrequencies ''ab'' init_table inc_count) ! i) = 0 \<and>
               \<not> letter_entry (stable_sort (countFrequencies ''ab'' init_table inc_count) ! i)"
    by blast
  ultimately show ?thesis using ab by simp
qed

section \<open>The estimate of the key length\<close>

lemma count_matches_eq:
  "count_matches ciph j k m =
     m + int (length (filter (\<lambda>d. ciph ! (j + d) = ciph ! (k + d)) [0..<length ciph - k]))"
proof (induction ciph j k m rule: count_matches.induct)
  case (1 ciph j k m)
  show ?case
  proof (cases "k < length ciph")
    case True
    then have "[0..<length ciph - k] = 0 # map Suc [0..<length ciph - (k + 1)]"
      by (simp add: upt_conv_Cons map_Suc_upt Suc_diff_Suc del: upt_Suc)
    then have "length (filter (\<lambda>d. ciph ! (j + d) = ciph ! (k + d)) [0..<length ciph - k])
        = (if ciph ! j = ciph ! k then 1 else 0)
          + length (filter (\<lambda>d. ciph ! (j + 1 + d) = ciph ! (k + 1 + d)) [0..<length ciph - (k + 1)])"
      by (simp add: filter_map comp_def)
    with True "1.IH" [OF True] show ?thesis
      by (subst count_matches.simps) simp
  next
    case False
    then show ?thesis
      by (subst count_matches.simps) simp
  qed
qed

lemma count_matches_coincidences: "count_matches ciph 0 L 0 = int (coincidences ciph L)"
  by (simp add: count_matches_eq coincidences_def add.commute)


lemma guess_inv_step:
  assumes "guess_inv ciph xs st"
  shows "guess_inv ciph (xs @ [i]) (guess_step ciph st i)"
proof -
  let ?c = "\<lambda>L. int (coincidences ciph L)"
  obtain gl gm where st: "st = (gl, gm)" by (cases st)
  from assms st have gl: "gl = filter (\<lambda>L. ?c L = gm) xs"
    and le: "\<forall>L\<in>set xs. ?c L \<le> gm"
    and ex: "gm = 0 \<or> (\<exists>L\<in>set xs. ?c L = gm)"
    by (simp_all add: guess_inv_def)
  consider "?c i > gm" | "?c i = gm" | "?c i < gm"
    by linarith
  then show ?thesis
  proof cases
    case 1
    have "filter (\<lambda>L. ?c L = ?c i) xs = []"
      unfolding filter_empty_conv using le 1 by fastforce
    moreover have "\<forall>L\<in>set xs. ?c L \<le> ?c i"
      using le 1 by fastforce
    ultimately show ?thesis
      using 1 unfolding guess_inv_def guess_step_def st
      by (simp add: count_matches_coincidences Let_def)
  next
    case 2
    with gl le ex show ?thesis
      unfolding guess_inv_def guess_step_def st
      by (auto simp: count_matches_coincidences Let_def)
  next
    case 3
    with gl le ex show ?thesis
      unfolding guess_inv_def guess_step_def st
      by (auto simp: count_matches_coincidences Let_def)
  qed
qed

lemma guess_inv_fold: "guess_inv ciph xs (foldl (guess_step ciph) ([], 0) xs)"
proof (induction xs rule: rev_induct)
  case Nil
  then show ?case by (simp add: guess_inv_def)
next
  case (snoc i xs)
  from guess_inv_step [OF snoc.IH, of i] show ?case by simp
qed

lemma guess_lengths_eq:
  "guess_lengths ciph key_max =
     filter (\<lambda>L. \<forall>L'\<in>{1..key_max}. coincidences ciph L' \<le> coincidences ciph L) [1..<key_max + 1]"
proof -
  let ?c = "\<lambda>L. int (coincidences ciph L)"
  let ?xs = "[1..<key_max + 1]"
  have set: "set ?xs = {1..key_max}"
    by auto
  obtain gl gm where st: "foldl (guess_step ciph) ([], 0) ?xs = (gl, gm)"
    by (cases "foldl (guess_step ciph) ([], 0) ?xs")
  from guess_inv_fold [of ciph ?xs]
  have gl: "gl = filter (\<lambda>L. ?c L = gm) ?xs"
    and le: "\<forall>L\<in>{1..key_max}. ?c L \<le> gm"
    and ex: "gm = 0 \<or> (\<exists>L\<in>{1..key_max}. ?c L = gm)"
    unfolding guess_inv_def st set by simp_all
  have "(?c L = gm) = (\<forall>L'\<in>{1..key_max}. coincidences ciph L' \<le> coincidences ciph L)"
    if "L \<in> set ?xs" for L
  proof
    assume "?c L = gm"
    with le show "\<forall>L'\<in>{1..key_max}. coincidences ciph L' \<le> coincidences ciph L"
      by fastforce
  next
    assume a: "\<forall>L'\<in>{1..key_max}. coincidences ciph L' \<le> coincidences ciph L"
    from that have L: "L \<in> {1..key_max}" unfolding set .
    with le have "?c L \<le> gm" by blast
    moreover have "gm \<le> ?c L"
      using ex a by fastforce
    ultimately show "?c L = gm" by simp
  qed
  then have "filter (\<lambda>L. ?c L = gm) ?xs
      = filter (\<lambda>L. \<forall>L'\<in>{1..key_max}. coincidences ciph L' \<le> coincidences ciph L) ?xs"
    by (intro filter_cong refl)
  with gl show ?thesis
    unfolding guess_lengths_def st by simp
qed

section \<open>The shift search\<close>

lemma foldl_dot:
  assumes "f < 26"
  shows "foldl (dot_step W) (acc, f) [0..<n]
     = (acc + (\<Sum>j<n. FREQUENCIES ! ((f + j) mod 26) * W ! j), (f + n) mod 26)"
proof (induction n)
  case 0
  with assms show ?case by simp
next
  case (Suc n)
  have "foldl (dot_step W) (acc, f) [0..<Suc n]
      = dot_step W (foldl (dot_step W) (acc, f) [0..<n]) n"
    by simp
  also have "\<dots> = dot_step W (acc + (\<Sum>j<n. FREQUENCIES ! ((f + j) mod 26) * W ! j), (f + n) mod 26) n"
    by (simp only: Suc.IH)
  also have "\<dots> = (acc + (\<Sum>j<Suc n. FREQUENCIES ! ((f + j) mod 26) * W ! j), (f + Suc n) mod 26)"
    by (simp add: dot_step_def mod_simps)
  finally show ?case .
qed

lemma shift_dot_eq:
  assumes "s < 26"
  shows "shift_dot W s = (\<Sum>j<26. FREQUENCIES ! ((j + 26 - s) mod 26) * W ! j)"
proof -
  have "(26 - s) mod 26 < 26"
    by simp
  then have "foldl (dot_step W) (0, (26 - s) mod 26) [0..<26]
      = (0 + (\<Sum>j<26. FREQUENCIES ! (((26 - s) mod 26 + j) mod 26) * W ! j), ((26 - s) mod 26 + 26) mod 26)"
    by (rule foldl_dot)
  then have "shift_dot W s = (\<Sum>j<26. FREQUENCIES ! (((26 - s) mod 26 + j) mod 26) * W ! j)"
    unfolding shift_dot_def by (simp only: fst_conv add_0)
  moreover have "((26 - s) mod 26 + j) mod 26 = (j + 26 - s) mod 26" for j
    using assms by (simp add: mod_simps add.commute)
  ultimately show ?thesis by simp
qed

lemma shift_fold:
  "foldl (shift_step W) (0, None) [0..<n] = (m, r) \<Longrightarrow>
     (r = None \<longrightarrow> m = 0 \<and> (\<forall>t<n. shift_dot W t \<le> 0)) \<and>
     (\<forall>s. r = Some s \<longrightarrow>
        s < n \<and> m = shift_dot W s \<and> 0 < shift_dot W s \<and>
        (\<forall>t<n. shift_dot W t \<le> shift_dot W s) \<and> (\<forall>t<s. shift_dot W t < shift_dot W s))"
proof (induction n arbitrary: m r)
  case 0
  then show ?case by simp
next
  case (Suc n)
  obtain m0 r0 where st: "foldl (shift_step W) (0, None) [0..<n] = (m0, r0)"
    by (cases "foldl (shift_step W) (0, None) [0..<n]")
  have step: "(m, r) = shift_step W (m0, r0) n"
    using Suc.prems st by simp
  note ih = Suc.IH [OF st]
  show ?case
  proof (cases "shift_dot W n > m0")
    case True
    with step have mr: "m = shift_dot W n" "r = Some n"
      by (simp_all add: shift_step_def Let_def)
    have bound: "\<forall>t<n. shift_dot W t \<le> m0" and "0 \<le> m0"
      using ih by (cases r0; fastforce)+
    with True mr show ?thesis
      by (auto simp: less_Suc_eq)
  next
    case False
    with step have mr: "m = m0" "r = r0"
      by (simp_all add: shift_step_def Let_def)
    show ?thesis
    proof (cases r0)
      case None
      with ih False mr show ?thesis
        by (auto simp: less_Suc_eq)
    next
      case (Some s0)
      with ih False mr show ?thesis
        by (auto simp: less_Suc_eq)
    qed
  qed
qed

lemma best_shift_iff:
  "best_shift W = Some s \<longleftrightarrow>
     s < 26 \<and> 0 < shift_dot W s \<and> (\<forall>t<26. shift_dot W t \<le> shift_dot W s)
     \<and> (\<forall>t<s. shift_dot W t < shift_dot W s)"
proof -
  obtain m r where st: "foldl (shift_step W) (0, None) [0..<26] = (m, r)"
    by (cases "foldl (shift_step W) (0, None) [0..<26]")
  note f = shift_fold [OF st]
  have b: "best_shift W = r"
    unfolding best_shift_def st by simp
  show ?thesis
  proof
    assume "best_shift W = Some s"
    with b f show "s < 26 \<and> 0 < shift_dot W s \<and> (\<forall>t<26. shift_dot W t \<le> shift_dot W s)
        \<and> (\<forall>t<s. shift_dot W t < shift_dot W s)"
      by simp
  next
    assume a: "s < 26 \<and> 0 < shift_dot W s \<and> (\<forall>t<26. shift_dot W t \<le> shift_dot W s)
        \<and> (\<forall>t<s. shift_dot W t < shift_dot W s)"
    show "best_shift W = Some s"
    proof (cases r)
      case None
      with f a show ?thesis by fastforce
    next
      case (Some s')
      with f have s': "s' < 26" "\<forall>t<26. shift_dot W t \<le> shift_dot W s'"
        "\<forall>t<s'. shift_dot W t < shift_dot W s'"
        by simp_all
      have "s' = s"
      proof (rule ccontr)
        assume "s' \<noteq> s"
        then consider "s' < s" | "s < s'" by linarith
        then show False
        proof cases
          case 1
          with a have "shift_dot W s' < shift_dot W s" by blast
          moreover from s'(2) a have "shift_dot W s \<le> shift_dot W s'" by blast
          ultimately show False by simp
        next
          case 2
          with s'(3) have "shift_dot W s < shift_dot W s'" by blast
          moreover from a s'(1) have "shift_dot W s' \<le> shift_dot W s" by blast
          ultimately show False by simp
        qed
      qed
      with b Some show ?thesis by simp
    qed
  qed
qed

lemma FREQUENCIES_pos: "k < 26 \<Longrightarrow> 0 < FREQUENCIES ! k"
proof -
  have "list_all (\<lambda>x. 0 < x) FREQUENCIES"
    by (simp add: FREQUENCIES_def)
  moreover have "length FREQUENCIES = 26"
    by (simp add: FREQUENCIES_def)
  ultimately show "k < 26 \<Longrightarrow> 0 < FREQUENCIES ! k"
    by (simp add: list_all_length)
qed

lemma shift_dot_pos:
  assumes "\<forall>k<26. 0 \<le> W ! k" "k < 26" "0 < W ! k"
  shows "0 < shift_dot W 0"
proof -
  have "shift_dot W 0 = (\<Sum>j<26. FREQUENCIES ! ((j + 26 - 0) mod 26) * W ! j)"
    by (rule shift_dot_eq) simp
  moreover have "0 < (\<Sum>j<26. FREQUENCIES ! ((j + 26 - 0) mod 26) * W ! j)"
  proof (rule sum_pos2 [of _ k])
    show "finite {..<26::nat}" by simp
    show "k \<in> {..<26}" using assms(2) by simp
    show "0 < FREQUENCIES ! ((k + 26 - 0) mod 26) * W ! k"
      using assms(3) FREQUENCIES_pos [of "(k + 26 - 0) mod 26"] by simp
    show "0 \<le> FREQUENCIES ! ((j + 26 - 0) mod 26) * W ! j" if "j \<in> {..<26}" for j
      using that assms(1) FREQUENCIES_pos [of "(j + 26 - 0) mod 26"] by (auto intro: mult_nonneg_nonneg less_imp_le)
  qed
  ultimately show ?thesis by simp
qed

lemma fill_W_positive:
  assumes "n \<noteq> 0"
    and "length W = 26"
    and "\<forall>i\<in>set ranks. letter_entry (freqs ! i) \<and> 0 < snd (freqs ! i)"
    and "\<forall>k<26. 0 \<le> W ! k"
    and "ranks = [] \<longrightarrow> (\<exists>k<26. 0 < W ! k)"
  shows "\<exists>W'. fill_W freqs n ranks W = Inr W' \<and> length W' = 26
           \<and> (\<forall>k<26. 0 \<le> W' ! k) \<and> (\<exists>k<26. 0 < W' ! k)"
  using assms(2-5)
proof (induction ranks arbitrary: W)
  case Nil
  then show ?case by simp
next
  case (Cons i ranks)
  let ?idx = "schar (fst (freqs ! i)) - schar (CHR ''a'')"
  let ?v = "of_int (snd (freqs ! i)) / of_nat n :: rat"
  let ?W = "W[nat ?idx := ?v]"
  from Cons.prems(2) have r: "0 \<le> ?idx \<and> ?idx < 26" and c: "0 < snd (freqs ! i)"
    by (simp_all add: letter_entry_def)
  from c assms(1) have v: "0 < ?v"
    by simp
  have k: "nat ?idx < 26"
    using r by linarith
  have "\<exists>W'. fill_W freqs n ranks ?W = Inr W' \<and> length W' = 26
           \<and> (\<forall>k<26. 0 \<le> W' ! k) \<and> (\<exists>k<26. 0 < W' ! k)"
  proof (rule Cons.IH)
    show "length ?W = 26"
      using Cons.prems(1) by simp
    show "\<forall>i\<in>set ranks. letter_entry (freqs ! i) \<and> 0 < snd (freqs ! i)"
      using Cons.prems(2) by simp
    show "\<forall>k<26. 0 \<le> ?W ! k"
      using Cons.prems(1,3) v k by (auto simp: nth_list_update intro: less_imp_le)
    show "ranks = [] \<longrightarrow> (\<exists>k<26. 0 < ?W ! k)"
      using Cons.prems(1) v k by (intro impI exI [of _ "nat ?idx"]) simp
  qed
  with r show ?case
    using assms(1) Cons.prems(1) by (simp add: Let_def)
qed

lemma key_char_total:
  assumes "sort_spec srt"
    and "column_loop ciph len start [] = Inr col"
    and "set col \<subseteq> set ALPHABET" "set ALPHABET \<subseteq> set col"
  shows "\<exists>s<26. key_char srt ciph len start = Inr (ALPHABET ! s)"
proof -
  let ?t = "countFrequencies col init_table inc_count"
  have sr: "sort_result ?t (srt ?t)"
    using assms(1) by (simp add: sort_spec_def)
  have ne: "length col \<noteq> 0"
    using assms(4) by (auto simp: ALPHABET_def)
  have top: "\<forall>i\<in>set [0..<26]. letter_entry (srt ?t ! i) \<and> 0 < snd (srt ?t ! i)"
  proof
    fix i :: nat assume "i \<in> set [0..<26]"
    then have "i < 26" by (simp only: rank_range)
    then show "letter_entry (srt ?t ! i) \<and> 0 < snd (srt ?t ! i)"
      by (rule top_ranks_letters [OF assms(3,4) sr])
  qed
  have "\<exists>W'. fill_W (srt ?t) (length col) [0..<26] (replicate 26 0) = Inr W' \<and> length W' = 26
           \<and> (\<forall>k<26. 0 \<le> W' ! k) \<and> (\<exists>k<26. 0 < W' ! k)"
  proof (rule fill_W_positive [OF ne _ top])
    show "length (replicate 26 (0::rat)) = 26" by simp
    show "\<forall>k<26. 0 \<le> replicate 26 (0::rat) ! k" by simp
    show "[0..<26] = [] \<longrightarrow> (\<exists>k<26. 0 < replicate 26 (0::rat) ! k)" by simp
  qed
  then obtain W k where W: "fill_W (srt ?t) (length col) [0..<26] (replicate 26 0) = Inr W"
    "\<forall>k<26. 0 \<le> W ! k" "k < 26" "0 < W ! k"
    by blast
  have "0 < shift_dot W 0"
    using W(2,3,4) by (rule shift_dot_pos)
  have "best_shift W \<noteq> None"
  proof
    assume n: "best_shift W = None"
    obtain m r where st: "foldl (shift_step W) (0, None) [0..<26] = (m, r)"
      by (cases "foldl (shift_step W) (0, None) [0..<26]")
    from n have "r = None"
      unfolding best_shift_def st by simp
    with shift_fold [OF st] have "shift_dot W 0 \<le> 0" by simp
    with \<open>0 < shift_dot W 0\<close> show False by simp
  qed
  then obtain s where s: "best_shift W = Some s" by blast
  then have "s < 26"
    by (simp add: best_shift_iff)
  moreover have "key_char srt ciph len start = Inr (ALPHABET ! s)"
    unfolding key_char_def using assms(2) W(1) s by (simp add: Let_def del: upt.simps)
  ultimately show ?thesis by blast
qed

section \<open>Runs of the Vigenere crack\<close>

lemma upt26:
  "[0..<26] = [0, 1, 2, 3, 4, 5, 6, 7, 8, 9, 10, 11, 12, 13, 14, 15, 16, 17, 18, 19, 20,
               21, 22, 23, 24, 25 :: nat]"
  by code_simp


lemma column_loop_unit:
  "len = 1 \<Longrightarrow> length ciph \<le> 2147483647 \<Longrightarrow>
   column_loop ciph len i col = Inr (col @ drop i ciph)"
proof (induction ciph len i col rule: column_loop.induct)
  case (1 ciph len i col)
  show ?case
  proof (cases "i < length ciph")
    case True
    with "1.prems" have c: "i < length ciph \<and> 0 < len" and o: "\<not> 2147483647 < i + len"
      by simp_all
    have "column_loop ciph len (i + len) (col @ [ciph ! i]) = Inr ((col @ [ciph ! i]) @ drop (i + len) ciph)"
      using c o "1.prems" by (rule "1.IH")
    moreover have "drop i ciph = ciph ! i # drop (i + len) ciph"
      using True "1.prems"(1) by (simp add: Cons_nth_drop_Suc)
    ultimately show ?thesis
      using c o by (subst column_loop.simps) simp
  next
    case False
    then show ?thesis
      by (subst column_loop.simps) simp
  qed
qed

lemma column_loop_empty: "length ciph \<le> start \<Longrightarrow> column_loop ciph len start [] = Inr []"
  by (subst column_loop.simps) simp

lemma fill_W_zero: "ranks \<noteq> [] \<Longrightarrow> fill_W freqs 0 ranks W = Inl DivByZero"
  by (cases ranks) (simp_all add: Let_def)

lemma key_char_empty:
  assumes "column_loop ciph len start [] = Inr []"
  shows "key_char srt ciph len start = Inl DivByZero"
proof -
  have "[0..<26] \<noteq> ([] :: nat list)"
    by (simp only: upt26) simp
  then have "fill_W freqs 0 [0..<26] W = Inl DivByZero" for freqs W
    by (rule fill_W_zero)
  with assms show ?thesis
    unfolding key_char_def by (simp add: Let_def del: upt.simps)
qed

lemma coincidences_empty: "coincidences [] L = 0"
  by (simp add: coincidences_def)

lemma guess_lengths_empty: "guess_lengths [] key_max = [1..<key_max + 1]"
  unfolding guess_lengths_eq by (simp add: coincidences_empty del: upt.simps upt_Suc)

lemma keys_loop_first_error:
  "key_char srt ciph len 0 = Inl e \<Longrightarrow> 0 < len \<Longrightarrow> keys_loop srt ciph (len # rest) out = Inl e"
proof -
  assume k: "key_char srt ciph len 0 = Inl e" and l: "0 < len"
  from l have "[0..<len] = 0 # [Suc 0..<len]"
    by (rule upt_conv_Cons)
  with k have "key_loop srt ciph len [0..<len] [] = Inl e"
    by simp
  then show ?thesis by simp
qed

text \<open>
  Claim C9. The percentage of a symbol is its count divided by the size of the column,
  and nothing tests that size: a column that is empty makes the key recovery divide by
  zero, and an empty column is reached, for one, whenever the sample is empty and the
  maximal key length is at least 1 (every length then ties at 0 matches and is kept).
\<close>

theorem empty_column_div_by_zero:
  "(column_loop ciph len start [] = Inr [] \<longrightarrow> key_char srt ciph len start = Inl DivByZero)
   \<and> (read_sample lines [] = [] \<and> 0 < key_max \<and> key_max < 2147483647 \<longrightarrow>
        vigenere_crack srt lines key_max = Inl DivByZero)"
proof (intro conjI impI)
  show "key_char srt ciph len start = Inl DivByZero" if "column_loop ciph len start [] = Inr []"
    using that by (rule key_char_empty)
next
  assume a: "read_sample lines [] = [] \<and> 0 < key_max \<and> key_max < 2147483647"
  then have "[1..<key_max + 1] = 1 # [Suc 1..<key_max + 1]"
    by (intro upt_conv_Cons) simp
  then have g: "guess_lengths [] key_max = 1 # [Suc 1..<key_max + 1]"
    by (simp only: guess_lengths_empty)
  have "key_char srt [] 1 0 = Inl DivByZero"
    by (rule key_char_empty) (simp add: column_loop_empty)
  then have "keys_loop srt [] (1 # [Suc 1..<key_max + 1]) [] = Inl DivByZero"
    by (rule keys_loop_first_error) simp
  with a g show "vigenere_crack srt lines key_max = Inl DivByZero"
    unfolding vigenere_crack_def by (simp add: Let_def)
qed

theorem empty_column_div_by_zero_witness:
  "column_loop ''ab'' 3 2 [] = Inr []
   \<and> key_char stable_sort ''ab'' 3 2 = Inl DivByZero
   \<and> read_sample [''12''] [] = []
   \<and> vigenere_crack stable_sort [''12''] 1 = Inl DivByZero"
proof -
  have c: "column_loop ''ab'' 3 2 [] = Inr []"
    by (rule column_loop_empty) simp
  have r: "read_sample [''12''] [] = []"
    by (simp add: filter_line_def to_lower_def ALPHABET_def)
  from empty_column_div_by_zero [of "''ab''" 3 2 stable_sort "[''12'']" 1] c r
  show ?thesis by simp
qed

lemma filter_line_alphabet: "filter_line ALPHABET = ALPHABET"
  by (simp add: filter_line_def to_lower_def ALPHABET_def)

lemma key_char_alphabet: "\<exists>s<26. key_char stable_sort ALPHABET 1 0 = Inr (ALPHABET ! s)"
proof (rule key_char_total [OF sort_spec_stable])
  have "length ALPHABET \<le> 2147483647"
    by (simp add: ALPHABET_def)
  then have "column_loop ALPHABET 1 0 [] = Inr ([] @ drop 0 ALPHABET)"
    by (intro column_loop_unit refl)
  then show "column_loop ALPHABET 1 0 [] = Inr ALPHABET"
    by simp
qed simp_all






lemma key_loop_length:
  "key_loop srt ciph len starts key = Inr k \<Longrightarrow> length k = length key + length starts"
proof (induction starts arbitrary: key)
  case Nil
  then show ?case by simp
next
  case (Cons start starts)
  from Cons.prems obtain c where c: "key_char srt ciph len start = Inr c"
    and r: "key_loop srt ciph len starts (key @ [c]) = Inr k"
    by (auto split: sum.splits)
  from Cons.IH [OF r] show ?case by simp
qed

lemma keys_loop_keys:
  "keys_loop srt ciph lens out = Inr keys \<Longrightarrow>
   \<exists>ks. keys = out @ ks \<and>
     list_all2 (\<lambda>L key. length key = L \<and> key_loop srt ciph L [0..<L] [] = Inr key) lens ks"
proof (induction lens arbitrary: out)
  case Nil
  then show ?case by simp
next
  case (Cons len lens)
  from Cons.prems obtain key where k: "key_loop srt ciph len [0..<len] [] = Inr key"
    and r: "keys_loop srt ciph lens (out @ [key]) = Inr keys"
    by (auto split: sum.splits)
  from Cons.IH [OF r] obtain ks where ks: "keys = (out @ [key]) @ ks"
    "list_all2 (\<lambda>L key. length key = L \<and> key_loop srt ciph L [0..<L] [] = Inr key) lens ks"
    by blast
  from key_loop_length [OF k] have "length key = len" by simp
  with k ks show ?case
    by (intro exI [of _ "key # ks"]) simp
qed

lemma crack_alphabet: "\<exists>s<26. vigenere_crack stable_sort [ALPHABET] 1 = Inr [[ALPHABET ! s]]"
proof -
  from key_char_alphabet obtain s where s: "s < 26"
    "key_char stable_sort ALPHABET 1 0 = Inr (ALPHABET ! s)"
    by blast
  have r: "read_sample [ALPHABET] [] = ALPHABET"
    by (simp add: filter_line_alphabet)
  have g: "guess_lengths ALPHABET 1 = [1]"
    unfolding guess_lengths_eq by simp
  have "keys_loop stable_sort ALPHABET [1] [] = Inr [[ALPHABET ! s]]"
    using s(2) by simp
  with r g have "vigenere_crack stable_sort [ALPHABET] 1 = Inr [[ALPHABET ! s]]"
    unfolding vigenere_crack_def by (simp add: Let_def)
  with s(1) show ?thesis by blast
qed

text \<open>
  Claim C5. The estimate of the key length keeps exactly the lengths \<open>L\<close> in
  \<open>[1, maxKeyLength]\<close> whose number of positions \<open>i\<close> with \<open>ciphertext[i] = ciphertext[i + L]\<close>
  is maximal, every length that ties for the maximum included, in ascending order; the
  number the source counts for \<open>L\<close> is that number of positions; and when the crack
  ends with a list of keys, there is one key per kept length, in the order of the
  lengths, each of its length and recovered for it.
\<close>

theorem guess_lengths_spec:
  "guess_lengths ciph key_max =
     filter (\<lambda>L. \<forall>L'\<in>{1..key_max}. coincidences ciph L' \<le> coincidences ciph L) [1..<key_max + 1]
   \<and> count_matches ciph 0 L 0 = int (coincidences ciph L)
   \<and> (vigenere_crack srt lines key_max = Inr keys \<longrightarrow>
        list_all2 (\<lambda>L key. length key = L \<and> key_loop srt (read_sample lines []) L [0..<L] [] = Inr key)
          (guess_lengths (read_sample lines []) key_max) keys)"
proof (intro conjI impI)
  show "guess_lengths ciph key_max =
     filter (\<lambda>L. \<forall>L'\<in>{1..key_max}. coincidences ciph L' \<le> coincidences ciph L) [1..<key_max + 1]"
    by (rule guess_lengths_eq)
  show "count_matches ciph 0 L 0 = int (coincidences ciph L)"
    by (rule count_matches_coincidences)
next
  assume "vigenere_crack srt lines key_max = Inr keys"
  then have "keys_loop srt (read_sample lines []) (guess_lengths (read_sample lines []) key_max) [] = Inr keys"
    unfolding vigenere_crack_def by (simp add: Let_def split: if_splits)
  from keys_loop_keys [OF this]
  show "list_all2 (\<lambda>L key. length key = L \<and> key_loop srt (read_sample lines []) L [0..<L] [] = Inr key)
          (guess_lengths (read_sample lines []) key_max) keys"
    by simp
qed

theorem guess_lengths_spec_witness:
  "guess_lengths '''' 3 = [1, 2, 3]
   \<and> guess_lengths ''abab'' 3 = [2]
   \<and> (\<exists>key. vigenere_crack stable_sort [ALPHABET] 1 = Inr [key] \<and> length key = 1)"
proof -
  have c: "coincidences '''' L = 0" for L
    by (simp add: coincidences_def)
  have u: "[1..<3 + 1] = [1, 2, 3 :: nat]"
    by code_simp
  have i: "{1..3::nat} = {1, 2, 3}"
    by auto
  have d: "coincidences ''abab'' (Suc 0) = 0" "coincidences ''abab'' 2 = 2" "coincidences ''abab'' 3 = 0"
    by (simp_all add: coincidences_def upt_rec_numeral)
  have "guess_lengths '''' 3 = [1, 2, 3]"
    using guess_lengths_spec [of "''''" 3] by (simp only: c u) simp
  moreover have "guess_lengths ''abab'' 3 = [2]"
    using guess_lengths_spec [of "''abab''" 3] by (simp only: u i) (simp add: d)
  moreover have "\<exists>key. vigenere_crack stable_sort [ALPHABET] 1 = Inr [key] \<and> length key = 1"
  proof -
    from crack_alphabet obtain s where s: "vigenere_crack stable_sort [ALPHABET] 1 = Inr [[ALPHABET ! s]]"
      by blast
    have r: "read_sample [ALPHABET] [] = ALPHABET"
      by (simp add: filter_line_alphabet)
    have g: "guess_lengths ALPHABET 1 = [1]"
      unfolding guess_lengths_eq by simp
    from guess_lengths_spec [of ALPHABET 1 1 stable_sort "[ALPHABET]" "[[ALPHABET ! s]]"] s
    have "list_all2 (\<lambda>L key. length key = L \<and> key_loop stable_sort (read_sample [ALPHABET] []) L [0..<L] [] = Inr key)
          (guess_lengths (read_sample [ALPHABET] []) 1) [[ALPHABET ! s]]"
      by blast
    then have "length [ALPHABET ! s] = 1"
      by (simp add: r g)
    with s show ?thesis by blast
  qed
  ultimately show ?thesis by simp
qed

end
